theory Spec2Isabelle
  imports Complex_Main
begin

section \<open>Strings as the scripts use them\<close>

text \<open>
  A piece of text is a list of code units. The model covers ASCII text: the case
  mappings act on the letters A-Z and a-z and leave every other code unit alone, and the
  white space of \<open>trim\<close> and of the pattern \<open>\s\<close> is TAB, LF, VT, FF, CR and the space.
\<close>

definition is_ws :: "char \<Rightarrow> bool" where
  "is_ws c = (c \<in> set [CHR 0x09, CHR 0x0A, CHR 0x0B, CHR 0x0C, CHR 0x0D, CHR '' ''])"

definition is_digit :: "char \<Rightarrow> bool" where
  "is_digit c = (48 \<le> (of_char c :: nat) \<and> (of_char c :: nat) \<le> 57)"

definition is_upper :: "char \<Rightarrow> bool" where
  "is_upper c = (65 \<le> (of_char c :: nat) \<and> (of_char c :: nat) \<le> 90)"

definition is_lower :: "char \<Rightarrow> bool" where
  "is_lower c = (97 \<le> (of_char c :: nat) \<and> (of_char c :: nat) \<le> 122)"

definition is_alpha :: "char \<Rightarrow> bool" where
  "is_alpha c = (is_upper c \<or> is_lower c)"

definition lower_char :: "char \<Rightarrow> char" where
  "lower_char c = (if is_upper c then char_of (of_char c + (32::nat)) else c)"

definition upper_char :: "char \<Rightarrow> char" where
  "upper_char c = (if is_lower c then char_of (of_char c - (32::nat)) else c)"

text \<open>\<open>s.toLowerCase()\<close>, \<open>s.toUpperCase()\<close> and \<open>s.trim()\<close>.\<close>

definition toLowerCase :: "string \<Rightarrow> string" where
  "toLowerCase s = map lower_char s"

definition toUpperCase :: "string \<Rightarrow> string" where
  "toUpperCase s = map upper_char s"

definition trim :: "string \<Rightarrow> string" where
  "trim s = rev (dropWhile is_ws (rev (dropWhile is_ws s)))"

text \<open>\<open>s.startsWith(p)\<close>.\<close>

fun startsWith :: "string \<Rightarrow> string \<Rightarrow> bool" where
  "startsWith s [] = True"
| "startsWith [] (p # ps) = False"
| "startsWith (c # cs) (p # ps) = (c = p \<and> startsWith cs ps)"

text \<open>\<open>xs.join(sep)\<close> on an array of strings.\<close>

fun join :: "string \<Rightarrow> string list \<Rightarrow> string" where
  "join sep [] = []"
| "join sep [x] = x"
| "join sep (x # y # ys) = x @ sep @ join sep (y # ys)"

text \<open>
  \<open>s.split(re)\<close> walks the text from the left; where the pattern matches it closes the
  current piece and goes on behind the match, otherwise the code unit joins the current
  piece. \<open>cons_piece\<close> puts a code unit in front of the first piece.
\<close>

fun cons_piece :: "char \<Rightarrow> string list \<Rightarrow> string list" where
  "cons_piece c [] = [[c]]"
| "cons_piece c (p # ps) = (c # p) # ps"

text \<open>\<open>s.split(/\r?\n/)\<close>: a line feed, with the carriage return before it when there is one.\<close>

fun split_lines :: "string \<Rightarrow> string list" where
  "split_lines [] = [[]]"
| "split_lines (c # cs) =
     (if c = CHR 0x0D \<and> startsWith cs [CHR 0x0A] then [] # split_lines (tl cs)
      else if c = CHR 0x0A then [] # split_lines cs
      else cons_piece c (split_lines cs))"

text \<open>\<open>s.split(/=>/i)\<close>: the two code units of the arrow have no case.\<close>

fun split_arrow :: "string \<Rightarrow> string list" where
  "split_arrow [] = [[]]"
| "split_arrow (c # cs) =
     (if c = CHR ''='' \<and> startsWith cs ''>'' then [] # split_arrow (tl cs)
      else cons_piece c (split_arrow cs))"

text \<open>
  \<open>s.split(/\s+/)\<close> and \<open>s.split(/\n+/)\<close>: a whole run of separators is one match.
\<close>

function split_run :: "(char \<Rightarrow> bool) \<Rightarrow> string \<Rightarrow> string list" where
  "split_run P [] = [[]]"
| "split_run P (c # cs) =
     (if P c then [] # split_run P (dropWhile P cs)
      else cons_piece c (split_run P cs))"
  by pat_completeness auto
termination
  by (relation "measure (\<lambda>(P, s). length s)") (auto simp: length_dropWhile_le less_Suc_eq_le)


text \<open>\<open>s.split(' ')\<close>: every single space separates.\<close>

fun split_space :: "string \<Rightarrow> string list" where
  "split_space [] = [[]]"
| "split_space (c # cs) =
     (if c = CHR '' '' then [] # split_space cs else cons_piece c (split_space cs))"

text \<open>\<open>xs[i]\<close> is \<open>undefined\<close> past the end of the array.\<close>

fun nth_opt :: "'a list \<Rightarrow> nat \<Rightarrow> 'a option" where
  "nth_opt [] i = None"
| "nth_opt (x # xs) 0 = Some x"
| "nth_opt (x # xs) (Suc i) = nth_opt xs i"

section \<open>Regular expressions\<close>

text \<open>
  The patterns of the scripts are built from the two anchors, literal text (compared
  without case under the flag \<open>i\<close>), a character class repeated between a lower and an
  optional upper bound, sequence and alternative. A run starts from a pair: whether the
  position is the start of the input, and the text still to read; it returns every pair a
  match can end at. \<open>re.test(s)\<close> holds when some position of \<open>s\<close> starts a match.
\<close>

datatype rx =
    Bol
  | Eol
  | Lit string
  | LitI string
  | Many nat "nat option" "char \<Rightarrow> bool"
  | Seq rx rx
  | Alt rx rx

definition in_bounds :: "nat \<Rightarrow> nat option \<Rightarrow> nat \<Rightarrow> bool" where
  "in_bounds n m k = (n \<le> k \<and> (case m of None \<Rightarrow> True | Some u \<Rightarrow> k \<le> u))"

fun rx_run :: "rx \<Rightarrow> bool \<times> string \<Rightarrow> (bool \<times> string) list" where
  "rx_run Bol (b, s) = (if b then [(b, s)] else [])"
| "rx_run Eol (b, s) = (if s = [] then [(b, s)] else [])"
| "rx_run (Lit t) (b, s) =
     (if length t \<le> length s \<and> take (length t) s = t
      then [(b \<and> t = [], drop (length t) s)] else [])"
| "rx_run (LitI t) (b, s) =
     (if length t \<le> length s \<and> toLowerCase (take (length t) s) = toLowerCase t
      then [(b \<and> t = [], drop (length t) s)] else [])"
| "rx_run (Many n m P) (b, s) =
     map (\<lambda>k. (b \<and> k = 0, drop k s))
       (filter (in_bounds n m) [0 ..< Suc (length (takeWhile P s))])"
| "rx_run (Seq r1 r2) st = concat (map (rx_run r2) (rx_run r1 st))"
| "rx_run (Alt r1 r2) st = rx_run r1 st @ rx_run r2 st"

definition rx_test :: "rx \<Rightarrow> string \<Rightarrow> bool" where
  "rx_test r s = list_ex (\<lambda>k. rx_run r (k = 0, drop k s) \<noteq> []) [0 ..< Suc (length s)]"

text \<open>One code unit of a class, one or more, an optional one, exactly \<open>n\<close>.\<close>

definition Cls :: "(char \<Rightarrow> bool) \<Rightarrow> rx" where
  "Cls P = Many 1 (Some 1) P"

definition Plus :: "(char \<Rightarrow> bool) \<Rightarrow> rx" where
  "Plus P = Many 1 None P"

definition Opt :: "(char \<Rightarrow> bool) \<Rightarrow> rx" where
  "Opt P = Many 0 (Some 1) P"

definition Exactly :: "nat \<Rightarrow> (char \<Rightarrow> bool) \<Rightarrow> rx" where
  "Exactly n P = Many n (Some n) P"

fun seqs :: "rx list \<Rightarrow> rx" where
  "seqs [] = Lit []"
| "seqs [r] = r"
| "seqs (r # rs) = Seq r (seqs rs)"

section \<open>Numbers\<close>

text \<open>
  A number of the scripts is \<open>NaN\<close> or a value. A value read from text is kept as the
  decimal it was written as: the rounding to a double is not modelled, so two numbers
  read from the same decimal are the same number, and the literal \<open>12.34\<close> of a
  script is \<open>Num (1234 / 100)\<close>.
\<close>

datatype jsnum = NaN | Num rat

definition digits_val :: "string \<Rightarrow> nat" where
  "digits_val ds = foldl (\<lambda>a c. 10 * a + (of_char c - 48)) 0 ds"

text \<open>
  \<open>Number(s)\<close> on text made of digits, minus signs and periods only, which is all that
  \<open>parseAmount\<close> passes: the empty text is 0; an optional minus sign, then digits with
  an optional period and optional digits behind it, or a period and digits, is that
  decimal; everything else is \<open>NaN\<close>.
\<close>

definition toNumber :: "string \<Rightarrow> jsnum" where
  "toNumber s =
     (if s = [] then Num 0
      else
        let neg = startsWith s ''-'';
            body = (if neg then tl s else s);
            ip = takeWhile is_digit body;
            rest = dropWhile is_digit body;
            sgn = (if neg then - 1 else 1)
        in if rest = [] then (if ip = [] then NaN else Num (sgn * of_nat (digits_val ip)))
           else if startsWith rest ''.'' then
             (let fp = tl rest
              in if list_all is_digit fp \<and> (ip \<noteq> [] \<or> fp \<noteq> [])
                 then Num (sgn * (of_nat (digits_val ip)
                                   + of_nat (digits_val fp) / 10 ^ length fp))
                 else NaN)
           else NaN)"

text \<open>
  \<open>parseAmount(s)\<close>. \<open>None\<close> is \<open>null\<close> or \<open>undefined\<close>; any other argument is the text
  \<open>String(s)\<close>. The first replacement keeps digits, minus signs, commas and periods,
  the second drops the commas; \<open>Number(s) || 0\<close> turns \<open>NaN\<close> and zero into 0.
\<close>

definition kept_in_amount :: "char \<Rightarrow> bool" where
  "kept_in_amount c = (is_digit c \<or> c = CHR ''-'' \<or> c = CHR '','' \<or> c = CHR ''.'')"

definition orZero :: "jsnum \<Rightarrow> jsnum" where
  "orZero x = (case x of NaN \<Rightarrow> Num 0 | Num q \<Rightarrow> (if q = 0 then Num 0 else Num q))"

definition parseAmount :: "string option \<Rightarrow> jsnum" where
  "parseAmount a =
     (case a of
        None \<Rightarrow> Num 0
      | Some s \<Rightarrow>
          orZero (toNumber (filter (\<lambda>c. c \<noteq> CHR '','') (filter kept_in_amount s))))"


section \<open>The rules text\<close>

record rule =
  keyword :: string
  category :: string

text \<open>
  \<open>parseRules(text)\<close>: one rule for each line that is not blank, is no comment, splits at
  the arrow into two parts or more and has a keyword and a category left after trimming.
  The category is \<open>parts[1]\<close>.
\<close>

fun parse_rule_lines :: "string list \<Rightarrow> rule list" where
  "parse_rule_lines [] = []"
| "parse_rule_lines (line # rest) =
     (let trimmed = trim line in
      if trimmed = [] \<or> startsWith trimmed ''#'' then parse_rule_lines rest
      else
        let parts = split_arrow trimmed in
        if 2 \<le> length parts then
          (let kw = toLowerCase (trim (parts ! 0));
               cat = toUpperCase (trim (parts ! 1))
           in if kw \<noteq> [] \<and> cat \<noteq> []
              then \<lparr>keyword = kw, category = cat\<rparr> # parse_rule_lines rest
              else parse_rule_lines rest)
        else parse_rule_lines rest)"

definition parseRules :: "string \<Rightarrow> rule list" where
  "parseRules txt = parse_rule_lines (split_lines txt)"

text \<open>
  \<open>sortRulesBox\<close> reads the text of the rules box, computes the text \<open>next\<close>, stores it
  when it differs and returns whether it did. The loop over the lines fills the two
  arrays \<open>comments\<close> and \<open>ruleLines\<close>; \<open>sort_scan\<close> returns them in that order.
\<close>

fun sort_scan :: "string list \<Rightarrow> string list \<times> string list" where
  "sort_scan [] = ([], [])"
| "sort_scan (line # rest) =
     (let (comments, ruleLines) = sort_scan rest;
          trimmed = trim line
      in if trimmed = [] \<or> startsWith trimmed ''#'' then (line # comments, ruleLines)
         else
           let parts = split_arrow line in
           if 2 \<le> length parts then
             (let kw = trim (parts ! 0);
                  cat = trim (join ''=>'' (tl parts))
              in if kw \<noteq> [] \<and> cat \<noteq> []
                 then (comments, (toUpperCase kw @ '' => '' @ toUpperCase cat) # ruleLines)
                 else (comments, ruleLines))
           else (line # comments, ruleLines))"

text \<open>
  The rule lines are sorted by \<open>a.split(/=>/)[0].trim().toLowerCase()\<close>, compared by
  \<open>localeCompare\<close> with sensitivity \<open>base\<close>. The collation of the host is a parameter
  \<open>le\<close> of the model (\<open>le ka kb\<close>: \<open>ka\<close> does not sort behind \<open>kb\<close>); the sort is stable.
\<close>

definition sort_key :: "string \<Rightarrow> string" where
  "sort_key a = toLowerCase (trim (split_arrow a ! 0))"

fun insert_line :: "(string \<Rightarrow> string \<Rightarrow> bool) \<Rightarrow> string \<Rightarrow> string list \<Rightarrow> string list" where
  "insert_line le a [] = [a]"
| "insert_line le a (b # bs) =
     (if le (sort_key a) (sort_key b) then a # b # bs else b # insert_line le a bs)"

definition sort_lines :: "(string \<Rightarrow> string \<Rightarrow> bool) \<Rightarrow> string list \<Rightarrow> string list" where
  "sort_lines le ls = foldr (insert_line le) ls []"

definition canonicalize :: "(string \<Rightarrow> string \<Rightarrow> bool) \<Rightarrow> string \<Rightarrow> string" where
  "canonicalize le original =
     (let (comments, ruleLines) = sort_scan (split_lines original);
          sorted = sort_lines le ruleLines
      in join [CHR 0x0A]
           (comments @ (if comments \<noteq> [] \<and> sorted \<noteq> [] then [[]] else []) @ sorted))"

text \<open>The text the rules box starts with when nothing was saved.\<close>

definition SAMPLE_RULES :: string where
  "SAMPLE_RULES = ''# Rules format: KEYWORD => CATEGORY'' @ [CHR 0x0A]"

text \<open>What \<open>sortRulesBox\<close> returns, and the text of the box after it.\<close>

definition sortRulesBox :: "(string \<Rightarrow> string \<Rightarrow> bool) \<Rightarrow> string \<Rightarrow> bool \<times> string" where
  "sortRulesBox le original =
     (let next = canonicalize le original
      in if next \<noteq> original then (True, next) else (False, original))"

section \<open>Matching a keyword\<close>

text \<open>The class \<open>[^A-Za-z0-9&._]\<close>.\<close>

definition delim :: "char \<Rightarrow> bool" where
  "delim c = (\<not> (is_alpha c \<or> is_digit c \<or> c = CHR ''&'' \<or> c = CHR ''.'' \<or> c = CHR ''_''))"

text \<open>
  Each token is escaped before it enters a pattern, so it stands there for its own text.
  The pattern for one token, and the pattern for a keyword of three tokens.
\<close>

definition token_re :: "string \<Rightarrow> rx" where
  "token_re tok = seqs [Alt Bol (Cls delim), LitI tok, Alt (Cls delim) Eol]"

definition three_re :: "string \<Rightarrow> string \<Rightarrow> string \<Rightarrow> rx" where
  "three_re t0 t1 t2 =
     seqs [Alt Bol (Cls delim), LitI t0, Plus delim, LitI t1, Plus delim, LitI t2,
           Alt (Cls delim) Eol]"

definition keyword_tokens :: "string \<Rightarrow> string list" where
  "keyword_tokens kw = filter (\<lambda>t. t \<noteq> []) (split_run is_ws (toLowerCase kw))"

definition matchesKeyword :: "string \<Rightarrow> string \<Rightarrow> bool" where
  "matchesKeyword descLower keywordLower =
     (if keywordLower = [] then False
      else
        let txt = toLowerCase descLower;
            tokens = keyword_tokens keywordLower
        in if tokens = [] then False
           else if length tokens = 3
             then rx_test (three_re (tokens ! 0) (tokens ! 1) (tokens ! 2)) txt
           else list_all (\<lambda>tok. rx_test (token_re tok) txt) tokens)"

section \<open>Categorising\<close>

text \<open>
  A transaction as the loaders build it: \<open>date\<close>, \<open>description\<close> and \<open>amount\<close>, and the
  \<open>category\<close> that \<open>categorise\<close> sets (absent before). No loader sets \<open>desc\<close> or \<open>debit\<close>,
  so \<open>t.desc || t.description || ""\<close> is the description and \<open>t.amount || t.debit || 0\<close>
  is the amount, or 0 when that is \<open>NaN\<close>.
\<close>

record txn =
  date :: string
  description :: string
  amount :: jsnum
  txn_category :: "string option"

definition abs_amount :: "txn \<Rightarrow> rat" where
  "abs_amount t = (case amount t of NaN \<Rightarrow> 0 | Num q \<Rightarrow> \<bar>q\<bar>)"

text \<open>The inner loop: \<open>matched\<close> starts as \<open>null\<close> and every matching rule overwrites it.\<close>

fun scan_rules :: "string \<Rightarrow> string option \<Rightarrow> rule list \<Rightarrow> string option" where
  "scan_rules d matched [] = matched"
| "scan_rules d matched (r # rs) =
     scan_rules d (if matchesKeyword d (keyword r) then Some (category r) else matched) rs"

text \<open>A value of \<open>matched\<close> counts as true when it is a text that is not empty.\<close>

definition truthy :: "string option \<Rightarrow> bool" where
  "truthy m = (case m of None \<Rightarrow> False | Some c \<Rightarrow> c \<noteq> [])"

definition categorise1 :: "rule list \<Rightarrow> txn \<Rightarrow> txn" where
  "categorise1 rules t =
     (let descLower = toLowerCase (description t);
          amt = abs_amount t;
          matched = scan_rules descLower None rules;
          matched' = (if truthy matched \<and> toUpperCase (the matched) = ''PETROL'' \<and> amt \<le> 2
                      then Some ''COFFEE'' else matched)
      in t\<lparr>txn_category := Some (if truthy matched' then the matched' else ''UNCATEGORISED'')\<rparr>)"

definition categorise :: "txn list \<Rightarrow> rule list \<Rightarrow> txn list" where
  "categorise txns rules = map (categorise1 rules) txns"

section \<open>Transactions from the text of a statement\<close>

text \<open>\<open>day.padStart(2, '0')\<close>.\<close>

definition padStart2 :: "string \<Rightarrow> string" where
  "padStart2 s = replicate (2 - length s) CHR ''0'' @ s"

definition months :: "(string \<times> string) list" where
  "months = [(''Jan'', ''01''), (''Feb'', ''02''), (''Mar'', ''03''), (''Apr'', ''04''),
             (''May'', ''05''), (''Jun'', ''06''), (''Jul'', ''07''), (''Aug'', ''08''),
             (''Sep'', ''09''), (''Oct'', ''10''), (''Nov'', ''11''), (''Dec'', ''12'')]"

text \<open>A value in a template: \<open>undefined\<close> prints as the word.\<close>

definition shown :: "string option \<Rightarrow> string" where
  "shown v = (case v of None \<Rightarrow> ''undefined'' | Some s \<Rightarrow> s)"

text \<open>
  \<open>normalisePdfDate(d)\<close>: the first three pieces of \<open>d.split(' ')\<close> are the day, the month
  and the year; the month goes through the table. It is called on lines the date pattern
  accepts: a piece of such a line is never the name of a property that the table
  inherits, so a month the table does not list is \<open>undefined\<close>.
\<close>

definition normalisePdfDate :: "string \<Rightarrow> string" where
  "normalisePdfDate d =
     (let ps = split_space d;
          day = ps ! 0;
          mon = nth_opt ps 1;
          year = nth_opt ps 2
      in shown year @ ''-'' @ shown (map_of months (shown mon)) @ ''-'' @ padStart2 day)"

text \<open>The four patterns of \<open>parseWestpacPdfText\<close>.\<close>

definition date_re :: rx where
  "date_re = seqs [Bol, Many 1 (Some 2) is_digit, Plus is_ws, Exactly 3 is_alpha,
                   Plus is_ws, Exactly 4 is_digit, Eol]"

definition amount_re :: rx where
  "amount_re = seqs [Bol, Opt (\<lambda>c. c = CHR ''-''), Opt (\<lambda>c. c = CHR ''$''), Plus is_digit,
                     Lit ''.'', Exactly 2 is_digit, Eol]"

definition payment_re :: rx where
  "payment_re = seqs [Bol, LitI ''PAYMENT'', Cls (\<lambda>c. c = CHR ''-'' \<or> c = CHR '' ''),
                      LitI ''BPAY'']"

definition header_re :: rx where
  "header_re = seqs [Bol,
     Alt (LitI ''withdrawal'') (Alt (LitI ''deposit'') (Alt (LitI ''date'') (LitI ''description''))),
     Eol]"

definition js_abs :: "jsnum \<Rightarrow> jsnum" where
  "js_abs x = (case x of NaN \<Rightarrow> NaN | Num q \<Rightarrow> Num \<bar>q\<bar>)"

text \<open>
  The loop over the lines, with its two variables \<open>curDate\<close> (\<open>null\<close> is \<open>None\<close>) and
  \<open>curDesc\<close>; the result lists the transactions in the order they are pushed.
\<close>

fun scan_lines :: "string option \<Rightarrow> string list \<Rightarrow> string list \<Rightarrow> txn list" where
  "scan_lines curDate curDesc [] = []"
| "scan_lines curDate curDesc (line # rest) =
     (if rx_test date_re line then scan_lines (Some (normalisePdfDate line)) [] rest
      else if rx_test amount_re line \<and> truthy curDate then
        (let amt = js_abs (parseAmount (Some line));
             descr = trim (join '' '' curDesc)
         in if rx_test payment_re descr then scan_lines None [] rest
            else \<lparr>date = the curDate, description = descr, amount = amt,
                   txn_category = None\<rparr> # scan_lines None [] rest)
      else if truthy curDate then
        (if rx_test header_re line then scan_lines curDate curDesc rest
         else scan_lines curDate (curDesc @ [line]) rest)
      else scan_lines curDate curDesc rest)"

definition pdf_lines :: "string \<Rightarrow> string list" where
  "pdf_lines txt = filter (\<lambda>l. l \<noteq> []) (map trim (split_run (\<lambda>c. c = CHR 0x0A) txt))"

definition parseWestpacPdfText :: "string \<Rightarrow> txn list" where
  "parseWestpacPdfText txt = scan_lines None [] (pdf_lines txt)"

text \<open>
  The spec's reading of the rule scan, for comparison with \<open>scan_rules\<close>: the category of
  the last rule of the list whose keyword matches the description, if there is one.
\<close>

definition last_match :: "string \<Rightarrow> rule list \<Rightarrow> string option" where
  "last_match d rules =
     (case filter (\<lambda>r. matchesKeyword d (keyword r)) rules of
        [] \<Rightarrow> None
      | r # rs \<Rightarrow> Some (category (last (r # rs))))"

section \<open>Lower case\<close>

lemma lower_char_idem: "lower_char (lower_char c) = lower_char c"
  by (cases c) (auto simp: lower_char_def is_upper_def)

lemma toLowerCase_idem: "toLowerCase (toLowerCase s) = toLowerCase s"
  by (simp add: toLowerCase_def lower_char_idem)

lemma toLowerCase_append: "toLowerCase (a @ b) = toLowerCase a @ toLowerCase b"
  by (simp add: toLowerCase_def)

lemma lower_fixed_iff: "toLowerCase s = s \<longleftrightarrow> (\<forall>c \<in> set s. lower_char c = c)"
  unfolding toLowerCase_def by (induction s) auto

lemma part_lower_fixed:
  assumes "toLowerCase d = pre @ u @ post"
  shows "toLowerCase u = u"
proof -
  have "\<forall>c \<in> set (toLowerCase d). lower_char c = c"
    using toLowerCase_idem [of d] by (simp only: lower_fixed_iff)
  then show ?thesis
    unfolding lower_fixed_iff assms by simp
qed

section \<open>What a pattern accepts\<close>

lemma le_takeWhile_iff:
  "k \<le> length (takeWhile P s) \<longleftrightarrow> k \<le> length s \<and> list_all P (take k s)"
proof (induction s arbitrary: k)
  case Nil
  then show ?case by simp
next
  case (Cons c cs)
  then show ?case by (cases k) auto
qed

lemma many_iff:
  "(b', s') \<in> set (rx_run (Many n m P) (b, s)) \<longleftrightarrow>
     (\<exists>g. s = g @ s' \<and> list_all P g \<and> in_bounds n m (length g) \<and> b' = (b \<and> g = []))"
proof
  assume "(b', s') \<in> set (rx_run (Many n m P) (b, s))"
  then obtain k where k: "in_bounds n m k" "k \<le> length (takeWhile P s)"
      "b' = (b \<and> k = 0)" "s' = drop k s"
    by (auto simp del: upt_Suc simp: less_Suc_eq_le)
  from k(2) have "k \<le> length s" "list_all P (take k s)"
    by (simp_all add: le_takeWhile_iff)
  with k show "\<exists>g. s = g @ s' \<and> list_all P g \<and> in_bounds n m (length g) \<and> b' = (b \<and> g = [])"
    by (intro exI[of _ "take k s"]) auto
next
  assume "\<exists>g. s = g @ s' \<and> list_all P g \<and> in_bounds n m (length g) \<and> b' = (b \<and> g = [])"
  then obtain g where g: "s = g @ s'" "list_all P g" "in_bounds n m (length g)"
      "b' = (b \<and> g = [])"
    by blast
  then have "length g \<le> length (takeWhile P s)"
    by (simp add: le_takeWhile_iff)
  with g show "(b', s') \<in> set (rx_run (Many n m P) (b, s))"
    by (auto simp del: upt_Suc simp: less_Suc_eq_le image_iff intro!: exI[of _ "length g"])
qed

lemma cls_iff:
  "(b', s') \<in> set (rx_run (Cls P) (b, s)) \<longleftrightarrow> (\<exists>c. s = c # s' \<and> P c \<and> \<not> b')"
  unfolding Cls_def many_iff
  by (auto simp: in_bounds_def length_Suc_conv le_Suc_eq)

lemma plus_iff:
  "(b', s') \<in> set (rx_run (Plus P) (b, s)) \<longleftrightarrow>
     (\<exists>g. g \<noteq> [] \<and> s = g @ s' \<and> list_all P g \<and> \<not> b')"
  unfolding Plus_def many_iff
  by (auto simp: in_bounds_def Suc_le_eq)

lemma litI_iff:
  "(b', s') \<in> set (rx_run (LitI t) (b, s)) \<longleftrightarrow>
     (\<exists>u. s = u @ s' \<and> toLowerCase u = toLowerCase t \<and> b' = (b \<and> t = []))"
proof
  assume "(b', s') \<in> set (rx_run (LitI t) (b, s))"
  then have "s = take (length t) s @ s'" "toLowerCase (take (length t) s) = toLowerCase t"
    "b' = (b \<and> t = [])"
    by (auto split: if_splits)
  then show "\<exists>u. s = u @ s' \<and> toLowerCase u = toLowerCase t \<and> b' = (b \<and> t = [])"
    by blast
next
  assume "\<exists>u. s = u @ s' \<and> toLowerCase u = toLowerCase t \<and> b' = (b \<and> t = [])"
  then obtain u where u: "s = u @ s'" "toLowerCase u = toLowerCase t" "b' = (b \<and> t = [])"
    by blast
  from u(2) have "length u = length t"
    by (metis length_map toLowerCase_def)
  with u show "(b', s') \<in> set (rx_run (LitI t) (b, s))"
    by simp
qed

lemma seq_iff:
  "x \<in> set (rx_run (Seq r1 r2) st) \<longleftrightarrow> (\<exists>mid \<in> set (rx_run r1 st). x \<in> set (rx_run r2 mid))"
  by auto

lemma alt_iff:
  "x \<in> set (rx_run (Alt r1 r2) st) \<longleftrightarrow> x \<in> set (rx_run r1 st) \<or> x \<in> set (rx_run r2 st)"
  by auto

lemma bol_iff: "(b', s') \<in> set (rx_run Bol (b, s)) \<longleftrightarrow> b \<and> b' \<and> s' = s"
  by auto

lemma eol_iff: "(b', s') \<in> set (rx_run Eol (b, s)) \<longleftrightarrow> s = [] \<and> s' = [] \<and> b' = b"
  by auto

lemma rx_test_iff:
  "rx_test r s \<longleftrightarrow> (\<exists>pre rest x. s = pre @ rest \<and> x \<in> set (rx_run r (pre = [], rest)))"
proof
  assume "rx_test r s"
  then obtain k where k: "k \<le> length s" "rx_run r (k = 0, drop k s) \<noteq> []"
    by (auto simp del: upt_Suc simp: rx_test_def list_ex_iff less_Suc_eq_le)
  then obtain x where "x \<in> set (rx_run r (k = 0, drop k s))"
    by (cases "rx_run r (k = 0, drop k s)") auto
  moreover have "(take k s = []) = (k = 0)" using k(1) by (cases s) auto
  ultimately show "\<exists>pre rest x. s = pre @ rest \<and> x \<in> set (rx_run r (pre = [], rest))"
    by (intro exI[of _ "take k s"] exI[of _ "drop k s"] exI[of _ x]) simp
next
  assume "\<exists>pre rest x. s = pre @ rest \<and> x \<in> set (rx_run r (pre = [], rest))"
  then obtain pre rest x where p: "s = pre @ rest" "x \<in> set (rx_run r (pre = [], rest))"
    by blast
  then have "rx_run r (length pre = 0, drop (length pre) s) \<noteq> []"
    by auto
  moreover have "length pre \<le> length s" using p(1) by simp
  ultimately show "rx_test r s"
    unfolding rx_test_def list_ex_iff
    by (auto simp del: upt_Suc simp: less_Suc_eq_le intro!: bexI[of _ "length pre"])
qed

lemma nonempty_iff: "xs \<noteq> [] \<longleftrightarrow> (\<exists>x. x \<in> set xs)"
  by (cases xs) auto

lemma acc_seq:
  "rx_run (Seq r1 r2) st \<noteq> [] \<longleftrightarrow> (\<exists>mid \<in> set (rx_run r1 st). rx_run r2 mid \<noteq> [])"
  by auto

lemma acc_eol: "rx_run Eol (b, s) \<noteq> [] \<longleftrightarrow> s = []"
  by simp

lemma acc_many:
  assumes "\<And>b s. rx_run r (b, s) \<noteq> [] \<longleftrightarrow> Q s"
  shows "rx_run (Seq (Many n m P) r) (b, s) \<noteq> [] \<longleftrightarrow>
     (\<exists>g rest. s = g @ rest \<and> list_all P g \<and> in_bounds n m (length g) \<and> Q rest)"
proof
  assume "rx_run (Seq (Many n m P) r) (b, s) \<noteq> []"
  then obtain b' s' where m: "(b', s') \<in> set (rx_run (Many n m P) (b, s))"
      and q: "rx_run r (b', s') \<noteq> []"
    unfolding acc_seq by auto
  from q have "Q s'" by (simp add: assms)
  with m show "\<exists>g rest. s = g @ rest \<and> list_all P g \<and> in_bounds n m (length g) \<and> Q rest"
    unfolding many_iff by blast
next
  assume "\<exists>g rest. s = g @ rest \<and> list_all P g \<and> in_bounds n m (length g) \<and> Q rest"
  then obtain g rest where g: "s = g @ rest" "list_all P g" "in_bounds n m (length g)" "Q rest"
    by blast
  then have "(b \<and> g = [], rest) \<in> set (rx_run (Many n m P) (b, s))"
    unfolding many_iff by blast
  moreover have "rx_run r (b \<and> g = [], rest) \<noteq> []"
    using g(4) by (simp add: assms)
  ultimately show "rx_run (Seq (Many n m P) r) (b, s) \<noteq> []"
    unfolding acc_seq by blast
qed

lemma acc_litI:
  assumes "\<And>b s. rx_run r (b, s) \<noteq> [] \<longleftrightarrow> Q s"
  shows "rx_run (Seq (LitI t) r) (b, s) \<noteq> [] \<longleftrightarrow>
     (\<exists>u rest. s = u @ rest \<and> toLowerCase u = toLowerCase t \<and> Q rest)"
proof
  assume "rx_run (Seq (LitI t) r) (b, s) \<noteq> []"
  then obtain b' s' where m: "(b', s') \<in> set (rx_run (LitI t) (b, s))"
      and q: "rx_run r (b', s') \<noteq> []"
    unfolding acc_seq by auto
  from q have "Q s'" by (simp add: assms)
  with m show "\<exists>u rest. s = u @ rest \<and> toLowerCase u = toLowerCase t \<and> Q rest"
    unfolding litI_iff by blast
next
  assume "\<exists>u rest. s = u @ rest \<and> toLowerCase u = toLowerCase t \<and> Q rest"
  then obtain u rest where u: "s = u @ rest" "toLowerCase u = toLowerCase t" "Q rest"
    by blast
  then have "(b \<and> t = [], rest) \<in> set (rx_run (LitI t) (b, s))"
    unfolding litI_iff by blast
  moreover have "rx_run r (b \<and> t = [], rest) \<noteq> []"
    using u(3) by (simp add: assms)
  ultimately show "rx_run (Seq (LitI t) r) (b, s) \<noteq> []"
    unfolding acc_seq by blast
qed

lemma acc_end: "rx_run (Alt (Cls delim) Eol) (b, s) \<noteq> [] \<longleftrightarrow> s = [] \<or> delim (hd s)"
proof -
  have "rx_run (Cls delim) (b, s) \<noteq> [] \<longleftrightarrow> (\<exists>c s'. s = c # s' \<and> delim c)"
    unfolding nonempty_iff by (auto simp: cls_iff)
  then show ?thesis
    by (cases s) auto
qed

lemma acc_start:
  assumes "\<And>b s. rx_run r (b, s) \<noteq> [] \<longleftrightarrow> Q s"
  shows "rx_test (Seq (Alt Bol (Cls delim)) r) s \<longleftrightarrow>
     (\<exists>pre rest. s = pre @ rest \<and> (pre = [] \<or> delim (last pre)) \<and> Q rest)"
proof
  assume "rx_test (Seq (Alt Bol (Cls delim)) r) s"
  then obtain pre rest x where s: "s = pre @ rest"
      and x: "x \<in> set (rx_run (Seq (Alt Bol (Cls delim)) r) (pre = [], rest))"
    unfolding rx_test_iff by blast
  from x have ne: "rx_run (Seq (Alt Bol (Cls delim)) r) (pre = [], rest) \<noteq> []"
    unfolding nonempty_iff by blast
  from ne obtain mid where mid: "mid \<in> set (rx_run (Alt Bol (Cls delim)) (pre = [], rest))"
      "rx_run r mid \<noteq> []"
    unfolding acc_seq by blast
  obtain b' s' where bs: "mid = (b', s')" by (cases mid)
  from mid bs have m: "(b', s') \<in> set (rx_run (Alt Bol (Cls delim)) (pre = [], rest))"
      and q: "Q s'"
    using assms by blast+
  from m consider "pre = []" "s' = rest" | c where "rest = c # s'" "delim c"
    unfolding alt_iff bol_iff cls_iff by blast
  then show "\<exists>pre rest. s = pre @ rest \<and> (pre = [] \<or> delim (last pre)) \<and> Q rest"
  proof cases
    case 1
    with s q show ?thesis by blast
  next
    case 2
    with s have "s = (pre @ [c]) @ s'" "delim (last (pre @ [c]))" by simp_all
    with q show ?thesis by blast
  qed
next
  assume "\<exists>pre rest. s = pre @ rest \<and> (pre = [] \<or> delim (last pre)) \<and> Q rest"
  then obtain pre rest where p: "s = pre @ rest" "pre = [] \<or> delim (last pre)" "Q rest"
    by blast
  have q: "rx_run r (b, rest) \<noteq> []" for b using p(3) by (simp add: assms)
  show "rx_test (Seq (Alt Bol (Cls delim)) r) s"
  proof (cases "pre = []")
    case True
    then have "(True, rest) \<in> set (rx_run (Alt Bol (Cls delim)) (([]::string) = [], s))"
      using p(1) by (simp add: alt_iff bol_iff)
    with q have "rx_run (Seq (Alt Bol (Cls delim)) r) (([]::string) = [], s) \<noteq> []"
      unfolding acc_seq by blast
    then obtain x where "x \<in> set (rx_run (Seq (Alt Bol (Cls delim)) r) (([]::string) = [], s))"
      unfolding nonempty_iff by blast
    moreover have "s = [] @ s" by simp
    ultimately show ?thesis
      unfolding rx_test_iff by blast
  next
    case False
    then obtain p' c where pc: "pre = p' @ [c]" by (metis rev_exhaust)
    with p(2) have "delim c" by simp
    then have "(False, rest) \<in> set (rx_run (Alt Bol (Cls delim)) (p' = [], c # rest))"
      by (simp add: alt_iff cls_iff)
    with q have "rx_run (Seq (Alt Bol (Cls delim)) r) (p' = [], c # rest) \<noteq> []"
      unfolding acc_seq by blast
    moreover have "s = p' @ c # rest" using p(1) pc by simp
    ultimately show ?thesis
      unfolding rx_test_iff nonempty_iff by blast
  qed
qed

lemma token_re_test:
  "rx_test (token_re tok) s \<longleftrightarrow>
     (\<exists>pre u post. s = pre @ u @ post \<and> toLowerCase u = toLowerCase tok \<and>
        (pre = [] \<or> delim (last pre)) \<and> (post = [] \<or> delim (hd post)))"
proof -
  have l: "rx_run (Seq (LitI tok) (Alt (Cls delim) Eol)) (b, s) \<noteq> [] \<longleftrightarrow>
      (\<exists>u rest. s = u @ rest \<and> toLowerCase u = toLowerCase tok \<and> (rest = [] \<or> delim (hd rest)))"
    for b s
    by (rule acc_litI) (rule acc_end)
  show ?thesis
    unfolding token_re_def seqs.simps acc_start [of _ _ s, OF l] by blast
qed

lemma three_re_test:
  "rx_test (three_re t0 t1 t2) s \<longleftrightarrow>
     (\<exists>pre u0 g1 u1 g2 u2 post. s = pre @ u0 @ g1 @ u1 @ g2 @ u2 @ post \<and>
        toLowerCase u0 = toLowerCase t0 \<and> toLowerCase u1 = toLowerCase t1 \<and>
        toLowerCase u2 = toLowerCase t2 \<and>
        g1 \<noteq> [] \<and> list_all delim g1 \<and> g2 \<noteq> [] \<and> list_all delim g2 \<and>
        (pre = [] \<or> delim (last pre)) \<and> (post = [] \<or> delim (hd post)))"
proof -
  have l2: "rx_run (Seq (LitI t2) (Alt (Cls delim) Eol)) (b, s) \<noteq> [] \<longleftrightarrow>
      (\<exists>u rest. s = u @ rest \<and> toLowerCase u = toLowerCase t2 \<and> (rest = [] \<or> delim (hd rest)))"
    for b s
    by (rule acc_litI) (rule acc_end)
  have p2: "rx_run (Seq (Plus delim) (Seq (LitI t2) (Alt (Cls delim) Eol))) (b, s) \<noteq> [] \<longleftrightarrow>
      (\<exists>g rest. s = g @ rest \<and> list_all delim g \<and> in_bounds 1 None (length g) \<and>
         (\<exists>u rest'. rest = u @ rest' \<and> toLowerCase u = toLowerCase t2 \<and>
            (rest' = [] \<or> delim (hd rest'))))"
    for b s
    unfolding Plus_def by (rule acc_many) (rule l2)
  have l1: "rx_run (Seq (LitI t1) (Seq (Plus delim) (Seq (LitI t2) (Alt (Cls delim) Eol)))) (b, s) \<noteq> [] \<longleftrightarrow>
      (\<exists>u1 r1. s = u1 @ r1 \<and> toLowerCase u1 = toLowerCase t1 \<and>
        (\<exists>g rest. r1 = g @ rest \<and> list_all delim g \<and> in_bounds 1 None (length g) \<and>
         (\<exists>u rest'. rest = u @ rest' \<and> toLowerCase u = toLowerCase t2 \<and>
            (rest' = [] \<or> delim (hd rest')))))"
    for b s
    by (rule acc_litI) (rule p2)
  have p1: "rx_run (Seq (Plus delim) (Seq (LitI t1) (Seq (Plus delim) (Seq (LitI t2) (Alt (Cls delim) Eol))))) (b, s) \<noteq> [] \<longleftrightarrow>
      (\<exists>g1 r0. s = g1 @ r0 \<and> list_all delim g1 \<and> in_bounds 1 None (length g1) \<and>
      (\<exists>u1 r1. r0 = u1 @ r1 \<and> toLowerCase u1 = toLowerCase t1 \<and>
        (\<exists>g rest. r1 = g @ rest \<and> list_all delim g \<and> in_bounds 1 None (length g) \<and>
         (\<exists>u rest'. rest = u @ rest' \<and> toLowerCase u = toLowerCase t2 \<and>
            (rest' = [] \<or> delim (hd rest'))))))"
    for b s
    unfolding Plus_def by (rule acc_many) (rule l1 [unfolded Plus_def])
  have l0: "rx_run (Seq (LitI t0) (Seq (Plus delim) (Seq (LitI t1) (Seq (Plus delim) (Seq (LitI t2) (Alt (Cls delim) Eol)))))) (b, s) \<noteq> [] \<longleftrightarrow>
      (\<exists>u0 q. s = u0 @ q \<and> toLowerCase u0 = toLowerCase t0 \<and>
      (\<exists>g1 r0. q = g1 @ r0 \<and> list_all delim g1 \<and> in_bounds 1 None (length g1) \<and>
      (\<exists>u1 r1. r0 = u1 @ r1 \<and> toLowerCase u1 = toLowerCase t1 \<and>
        (\<exists>g rest. r1 = g @ rest \<and> list_all delim g \<and> in_bounds 1 None (length g) \<and>
         (\<exists>u rest'. rest = u @ rest' \<and> toLowerCase u = toLowerCase t2 \<and>
            (rest' = [] \<or> delim (hd rest')))))))"
    for b s
    by (rule acc_litI) (rule p1)
  have nb: "in_bounds 1 None (length g) \<longleftrightarrow> g \<noteq> []" for g :: string
    by (cases g) (simp_all add: in_bounds_def)
  show ?thesis
    unfolding three_re_def seqs.simps acc_start [of _ _ s, OF l0] nb
  proof (rule iffI; elim exE conjE)
    fix pre rest u0 q g1 r0 u1 r1 g rest' u rest''
    assume "s = pre @ rest" "rest = u0 @ q" "q = g1 @ r0" "r0 = u1 @ r1" "r1 = g @ rest'"
      "rest' = u @ rest''"
    then have "s = pre @ u0 @ g1 @ u1 @ g @ u @ rest''" by simp
    moreover assume "toLowerCase u0 = toLowerCase t0" "toLowerCase u1 = toLowerCase t1"
      "toLowerCase u = toLowerCase t2" "g1 \<noteq> []" "list_all delim g1" "g \<noteq> []"
      "list_all delim g" "pre = [] \<or> delim (last pre)" "rest'' = [] \<or> delim (hd rest'')"
    ultimately show "\<exists>pre u0 g1 u1 g2 u2 post. s = pre @ u0 @ g1 @ u1 @ g2 @ u2 @ post \<and>
        toLowerCase u0 = toLowerCase t0 \<and> toLowerCase u1 = toLowerCase t1 \<and>
        toLowerCase u2 = toLowerCase t2 \<and>
        g1 \<noteq> [] \<and> list_all delim g1 \<and> g2 \<noteq> [] \<and> list_all delim g2 \<and>
        (pre = [] \<or> delim (last pre)) \<and> (post = [] \<or> delim (hd post))"
      by (intro exI conjI)
  next
    fix pre u0 g1 u1 g2 u2 post
    assume "s = pre @ u0 @ g1 @ u1 @ g2 @ u2 @ post"
      "toLowerCase u0 = toLowerCase t0" "toLowerCase u1 = toLowerCase t1"
      "toLowerCase u2 = toLowerCase t2" "g1 \<noteq> []" "list_all delim g1" "g2 \<noteq> []"
      "list_all delim g2" "pre = [] \<or> delim (last pre)" "post = [] \<or> delim (hd post)"
    then show "\<exists>pre rest. s = pre @ rest \<and> (pre = [] \<or> delim (last pre)) \<and>
      (\<exists>u0 q. rest = u0 @ q \<and> toLowerCase u0 = toLowerCase t0 \<and>
      (\<exists>g1 r0. q = g1 @ r0 \<and> list_all delim g1 \<and> g1 \<noteq> [] \<and>
      (\<exists>u1 r1. r0 = u1 @ r1 \<and> toLowerCase u1 = toLowerCase t1 \<and>
        (\<exists>g rest. r1 = g @ rest \<and> list_all delim g \<and> g \<noteq> [] \<and>
         (\<exists>u rest'. rest = u @ rest' \<and> toLowerCase u = toLowerCase t2 \<and>
            (rest' = [] \<or> delim (hd rest')))))))"
      by (intro exI conjI) (rule refl | assumption)+
  qed
qed

section \<open>Tokens of a keyword\<close>

lemma in_cons_piece:
  "p \<in> set (cons_piece c ps) \<Longrightarrow> (\<exists>q. p = c # q \<and> (q = [] \<or> q \<in> set ps)) \<or> p \<in> set ps"
  by (cases ps) auto

lemma split_run_pieces: "p \<in> set (split_run P s) \<Longrightarrow> set p \<subseteq> set s"
proof (induction P s arbitrary: p rule: split_run.induct)
  case (1 P)
  then show ?case by simp
next
  case (2 P c cs)
  show ?case
  proof (cases "P c")
    case True
    with 2 have "p = [] \<or> p \<in> set (split_run P (dropWhile P cs))" by simp
    then show ?thesis
    proof
      assume "p = []" then show ?thesis by simp
    next
      assume "p \<in> set (split_run P (dropWhile P cs))"
      with 2 True have "set p \<subseteq> set (dropWhile P cs)" by blast
      then show ?thesis using set_dropWhileD by fastforce
    qed
  next
    case False
    with 2 have "p \<in> set (cons_piece c (split_run P cs))" by simp
    from in_cons_piece [OF this] 2(2) [OF False] show ?thesis
      by fastforce
  qed
qed

lemma token_lower_fixed: "tok \<in> set (keyword_tokens k) \<Longrightarrow> toLowerCase tok = tok"
proof -
  assume "tok \<in> set (keyword_tokens k)"
  then have "set tok \<subseteq> set (toLowerCase k)"
    by (auto simp: keyword_tokens_def dest: split_run_pieces)
  moreover have "\<forall>c \<in> set (toLowerCase k). lower_char c = c"
    using toLowerCase_idem [of k] by (simp only: lower_fixed_iff)
  ultimately show ?thesis
    unfolding lower_fixed_iff by blast
qed

lemma token_occurs:
  assumes "toLowerCase tok = tok"
  shows "rx_test (token_re tok) (toLowerCase d) \<longleftrightarrow>
     (\<exists>pre post. toLowerCase d = pre @ tok @ post \<and>
        (pre = [] \<or> delim (last pre)) \<and> (post = [] \<or> delim (hd post)))"
proof
  assume "rx_test (token_re tok) (toLowerCase d)"
  then obtain pre u post where u: "toLowerCase d = pre @ u @ post"
      "toLowerCase u = toLowerCase tok"
      "pre = [] \<or> delim (last pre)" "post = [] \<or> delim (hd post)"
    unfolding token_re_test by blast
  from part_lower_fixed [OF u(1)] u(2) assms have "u = tok" by simp
  with u show "\<exists>pre post. toLowerCase d = pre @ tok @ post \<and>
        (pre = [] \<or> delim (last pre)) \<and> (post = [] \<or> delim (hd post))"
    by blast
next
  assume "\<exists>pre post. toLowerCase d = pre @ tok @ post \<and>
        (pre = [] \<or> delim (last pre)) \<and> (post = [] \<or> delim (hd post))"
  then show "rx_test (token_re tok) (toLowerCase d)"
    unfolding token_re_test by blast
qed

lemma three_occur:
  assumes "toLowerCase t0 = t0" "toLowerCase t1 = t1" "toLowerCase t2 = t2"
  shows "rx_test (three_re t0 t1 t2) (toLowerCase d) \<longleftrightarrow>
     (\<exists>pre g1 g2 post. toLowerCase d = pre @ t0 @ g1 @ t1 @ g2 @ t2 @ post \<and>
        g1 \<noteq> [] \<and> list_all delim g1 \<and> g2 \<noteq> [] \<and> list_all delim g2 \<and>
        (pre = [] \<or> delim (last pre)) \<and> (post = [] \<or> delim (hd post)))"
proof
  assume "rx_test (three_re t0 t1 t2) (toLowerCase d)"
  then obtain pre u0 g1 u1 g2 u2 post where
    u: "toLowerCase d = pre @ u0 @ g1 @ u1 @ g2 @ u2 @ post"
      "toLowerCase u0 = toLowerCase t0" "toLowerCase u1 = toLowerCase t1"
      "toLowerCase u2 = toLowerCase t2"
      "g1 \<noteq> []" "list_all delim g1" "g2 \<noteq> []" "list_all delim g2"
      "pre = [] \<or> delim (last pre)" "post = [] \<or> delim (hd post)"
    unfolding three_re_test by blast
  have "toLowerCase d = pre @ u0 @ (g1 @ u1 @ g2 @ u2 @ post)" using u(1) by simp
  from part_lower_fixed [OF this] u(2) assms have u0: "u0 = t0" by simp
  have "toLowerCase d = (pre @ u0 @ g1) @ u1 @ (g2 @ u2 @ post)" using u(1) by simp
  from part_lower_fixed [OF this] u(3) assms have u1: "u1 = t1" by simp
  have "toLowerCase d = (pre @ u0 @ g1 @ u1 @ g2) @ u2 @ post" using u(1) by simp
  from part_lower_fixed [OF this] u(4) assms have u2: "u2 = t2" by simp
  from u u0 u1 u2 show "\<exists>pre g1 g2 post. toLowerCase d = pre @ t0 @ g1 @ t1 @ g2 @ t2 @ post \<and>
        g1 \<noteq> [] \<and> list_all delim g1 \<and> g2 \<noteq> [] \<and> list_all delim g2 \<and>
        (pre = [] \<or> delim (last pre)) \<and> (post = [] \<or> delim (hd post))"
    by blast
next
  assume "\<exists>pre g1 g2 post. toLowerCase d = pre @ t0 @ g1 @ t1 @ g2 @ t2 @ post \<and>
        g1 \<noteq> [] \<and> list_all delim g1 \<and> g2 \<noteq> [] \<and> list_all delim g2 \<and>
        (pre = [] \<or> delim (last pre)) \<and> (post = [] \<or> delim (hd post))"
  then show "rx_test (three_re t0 t1 t2) (toLowerCase d)"
    unfolding three_re_test by blast
qed

lemma keyword_tokens_Nil: "keyword_tokens [] = []"
  by (simp add: keyword_tokens_def toLowerCase_def)

lemma matchesKeyword_three:
  assumes "keyword_tokens k = [t0, t1, t2]"
  shows "matchesKeyword d k \<longleftrightarrow> rx_test (three_re t0 t1 t2) (toLowerCase d)"
proof -
  from assms have "k \<noteq> []" using keyword_tokens_Nil by auto
  with assms show ?thesis by (simp add: matchesKeyword_def)
qed

lemma matchesKeyword_other:
  assumes "length (keyword_tokens k) \<noteq> 3"
  shows "matchesKeyword d k \<longleftrightarrow>
     keyword_tokens k \<noteq> [] \<and>
     list_all (\<lambda>tok. rx_test (token_re tok) (toLowerCase d)) (keyword_tokens k)"
proof (cases "k = []")
  case True
  then show ?thesis by (simp add: matchesKeyword_def keyword_tokens_Nil)
next
  case False
  with assms show ?thesis by (auto simp: matchesKeyword_def Let_def)
qed

lemma matchesKeyword_case:
  assumes "toLowerCase d = toLowerCase d'" "toLowerCase k = toLowerCase k'"
  shows "matchesKeyword d k = matchesKeyword d' k'"
proof -
  from assms(2) have "(k = []) = (k' = [])"
    unfolding toLowerCase_def by (metis map_is_Nil_conv)
  moreover from assms(2) have "keyword_tokens k = keyword_tokens k'"
    by (simp add: keyword_tokens_def)
  ultimately show ?thesis
    using assms(1) by (simp add: matchesKeyword_def)
qed

section \<open>Canonicalising the rules text\<close>

text \<open>
  C1. Canonicalising is meant to be idempotent. On the text of a comment line and a rule
  line it is not: the first pass puts one blank line between the comment and the rule,
  the second pass counts that blank line among the comments and puts another one behind
  it, and \<open>sortRulesBox\<close> reports a change on text that is already canonical. The
  same happens to the sample text of the rules box followed by one rule. The result does
  not depend on the collation \<open>le\<close>.
\<close>

theorem canonicalize_grows_at_separator:
  "canonicalize le (''# c'' @ [CHR 0x0A] @ ''a => b'') = ''# c'' @ [CHR 0x0A, CHR 0x0A] @ ''A => B'' \<and>
   canonicalize le (''# c'' @ [CHR 0x0A, CHR 0x0A] @ ''A => B'')
     = ''# c'' @ [CHR 0x0A, CHR 0x0A, CHR 0x0A] @ ''A => B'' \<and>
   canonicalize le (canonicalize le (''# c'' @ [CHR 0x0A] @ ''a => b''))
     \<noteq> canonicalize le (''# c'' @ [CHR 0x0A] @ ''a => b'') \<and>
   sortRulesBox le (''# c'' @ [CHR 0x0A, CHR 0x0A] @ ''A => B'')
     = (True, ''# c'' @ [CHR 0x0A, CHR 0x0A, CHR 0x0A] @ ''A => B'') \<and>
   canonicalize le (SAMPLE_RULES @ ''COLES => GROCERIES'')
     = SAMPLE_RULES @ [CHR 0x0A] @ ''COLES => GROCERIES'' \<and>
   canonicalize le (SAMPLE_RULES @ [CHR 0x0A] @ ''COLES => GROCERIES'')
     = SAMPLE_RULES @ [CHR 0x0A, CHR 0x0A] @ ''COLES => GROCERIES''"
  by code_simp

text \<open>
  C3. Canonicalising is meant to keep every line that is neither blank nor a comment. A
  line with the arrow and nothing before it, or nothing behind it, is in neither array:
  the text \<open>foo =>\<close> canonicalises to the empty text, and so does \<open>=> BAR\<close>; between a
  comment and a rule such a line vanishes.
\<close>

theorem canonicalize_drops_half_rules:
  "canonicalize le ''foo =>'' = [] \<and> canonicalize le ''=> BAR'' = [] \<and>
   canonicalize le (''# c'' @ [CHR 0x0A] @ ''foo =>'' @ [CHR 0x0A] @ ''a => b'')
     = ''# c'' @ [CHR 0x0A, CHR 0x0A] @ ''A => B''"
  by code_simp

section \<open>Parsing the rules\<close>

text \<open>
  C2. For the line \<open>K => A => B\<close>, \<open>parseRules\<close> yields the keyword \<open>k\<close> with the
  category \<open>A\<close>, the second part alone; what follows the second arrow is lost, and the
  category is not \<open>A => B\<close>.
\<close>

theorem parseRules_takes_second_part:
  "parseRules ''K => A => B'' = [\<lparr>keyword = ''k'', category = ''A''\<rparr>] \<and>
   parseRules ''K => A => B'' \<noteq> [\<lparr>keyword = ''k'', category = ''A => B''\<rparr>]"
  by code_simp

section \<open>Matching\<close>

text \<open>
  C6. A keyword matches whole tokens only, and without regard to case. The keyword
  \<open>woolworths\<close> matches \<open>paid at woolworths metro\<close> and does not match
  \<open>woolworthsextra\<close>. The empty keyword matches no description, nor does a keyword of
  white space only. When a keyword matches, each of its tokens stands in the lower-cased
  description between two boundaries: the start of the text or a delimiter before it, a
  delimiter or the end of the text behind it; for a keyword of one, two, four or more
  tokens that is also enough. Descriptions and keywords that differ in case only match
  alike.
\<close>

theorem matchesKeyword_whole_tokens:
  "matchesKeyword ''paid at woolworths metro'' ''woolworths'' \<and>
   \<not> matchesKeyword ''woolworthsextra'' ''woolworths'' \<and>
   \<not> matchesKeyword d [] \<and>
   (keyword_tokens k = [] \<longrightarrow> \<not> matchesKeyword d k) \<and>
   (matchesKeyword d k \<longrightarrow>
      (\<forall>tok \<in> set (keyword_tokens k).
         \<exists>pre post. toLowerCase d = pre @ tok @ post \<and>
           (pre = [] \<or> delim (last pre)) \<and> (post = [] \<or> delim (hd post)))) \<and>
   (length (keyword_tokens k) \<noteq> 3 \<longrightarrow>
      matchesKeyword d k =
        (keyword_tokens k \<noteq> [] \<and>
         (\<forall>tok \<in> set (keyword_tokens k).
            \<exists>pre post. toLowerCase d = pre @ tok @ post \<and>
              (pre = [] \<or> delim (last pre)) \<and> (post = [] \<or> delim (hd post))))) \<and>
   (toLowerCase d = toLowerCase d' \<and> toLowerCase k = toLowerCase k' \<longrightarrow>
      matchesKeyword d k = matchesKeyword d' k')"
proof (intro conjI impI)
  show "matchesKeyword ''paid at woolworths metro'' ''woolworths''" by code_simp
  show "\<not> matchesKeyword ''woolworthsextra'' ''woolworths''" by code_simp
  show "\<not> matchesKeyword d []" by (simp add: matchesKeyword_def)
  show "\<not> matchesKeyword d k" if "keyword_tokens k = []"
    using that by (simp add: matchesKeyword_def)
  have other: "matchesKeyword d k =
        (keyword_tokens k \<noteq> [] \<and>
         (\<forall>tok \<in> set (keyword_tokens k).
            \<exists>pre post. toLowerCase d = pre @ tok @ post \<and>
              (pre = [] \<or> delim (last pre)) \<and> (post = [] \<or> delim (hd post))))"
    if "length (keyword_tokens k) \<noteq> 3"
  proof -
    have "list_all (\<lambda>tok. rx_test (token_re tok) (toLowerCase d)) (keyword_tokens k) \<longleftrightarrow>
      (\<forall>tok \<in> set (keyword_tokens k).
            \<exists>pre post. toLowerCase d = pre @ tok @ post \<and>
              (pre = [] \<or> delim (last pre)) \<and> (post = [] \<or> delim (hd post)))"
      unfolding list_all_iff using token_occurs [OF token_lower_fixed] by blast
    then show ?thesis
      using matchesKeyword_other [OF that] by simp
  qed
  then show "matchesKeyword d k =
        (keyword_tokens k \<noteq> [] \<and>
         (\<forall>tok \<in> set (keyword_tokens k).
            \<exists>pre post. toLowerCase d = pre @ tok @ post \<and>
              (pre = [] \<or> delim (last pre)) \<and> (post = [] \<or> delim (hd post))))"
    if "length (keyword_tokens k) \<noteq> 3"
    using that .
  show "\<forall>tok \<in> set (keyword_tokens k).
         \<exists>pre post. toLowerCase d = pre @ tok @ post \<and>
           (pre = [] \<or> delim (last pre)) \<and> (post = [] \<or> delim (hd post))"
    if m: "matchesKeyword d k"
  proof (cases "length (keyword_tokens k) = 3")
    case False
    with other m show ?thesis by blast
  next
    case True
    then obtain t0 t1 t2 where kt: "keyword_tokens k = [t0, t1, t2]"
      by (auto simp: length_Suc_conv numeral_3_eq_3)
    have lf: "toLowerCase t0 = t0" "toLowerCase t1 = t1" "toLowerCase t2 = t2"
      using token_lower_fixed [of _ k] kt by simp_all
    from m obtain pre g1 g2 post where
      p: "toLowerCase d = pre @ t0 @ g1 @ t1 @ g2 @ t2 @ post"
        "g1 \<noteq> []" "list_all delim g1" "g2 \<noteq> []" "list_all delim g2"
        "pre = [] \<or> delim (last pre)" "post = [] \<or> delim (hd post)"
      unfolding matchesKeyword_three [OF kt] three_occur [OF lf] by blast
    have h1: "delim (hd g1)" "delim (last g1)" using p(2,3) by (cases g1; simp add: list_all_iff)+
    have h2: "delim (hd g2)" "delim (last g2)" using p(4,5) by (cases g2; simp add: list_all_iff)+
    have a: "\<exists>pre' post'. toLowerCase d = pre' @ t0 @ post' \<and>
           (pre' = [] \<or> delim (last pre')) \<and> (post' = [] \<or> delim (hd post'))"
      using p(1,2,6) h1(1) by (intro exI[of _ pre] exI[of _ "g1 @ t1 @ g2 @ t2 @ post"]) simp
    have b: "\<exists>pre' post'. toLowerCase d = pre' @ t1 @ post' \<and>
           (pre' = [] \<or> delim (last pre')) \<and> (post' = [] \<or> delim (hd post'))"
      using p(1,2,4) h1(2) h2(1)
      by (intro exI[of _ "pre @ t0 @ g1"] exI[of _ "g2 @ t2 @ post"]) simp
    have c: "\<exists>pre' post'. toLowerCase d = pre' @ t2 @ post' \<and>
           (pre' = [] \<or> delim (last pre')) \<and> (post' = [] \<or> delim (hd post'))"
      using p(1,4,7) h2(2)
      by (intro exI[of _ "pre @ t0 @ g1 @ t1 @ g2"] exI[of _ post]) simp
    from a b c show ?thesis by (simp add: kt)
  qed
  show "matchesKeyword d k = matchesKeyword d' k'"
    if "toLowerCase d = toLowerCase d' \<and> toLowerCase k = toLowerCase k'"
    using that matchesKeyword_case by blast
qed

text \<open>The theorem at the description \<open>Paid at WOOLWORTHS metro\<close> and the keyword \<open>Woolworths\<close>.\<close>

theorem matchesKeyword_whole_tokens_witness:
  "matchesKeyword ''Paid at WOOLWORTHS metro'' ''Woolworths'' \<and>
   keyword_tokens ''Woolworths'' = [''woolworths''] \<and>
   (\<exists>pre post. toLowerCase ''Paid at WOOLWORTHS metro'' = pre @ ''woolworths'' @ post \<and>
      (pre = [] \<or> delim (last pre)) \<and> (post = [] \<or> delim (hd post))) \<and>
   matchesKeyword ''Paid at WOOLWORTHS metro'' ''Woolworths''
     = matchesKeyword ''paid at woolworths metro'' ''woolworths''"
proof -
  have m: "matchesKeyword ''Paid at WOOLWORTHS metro'' ''Woolworths''" by code_simp
  have kt: "keyword_tokens ''Woolworths'' = [''woolworths'']" by code_simp
  have lo: "toLowerCase ''Paid at WOOLWORTHS metro'' = toLowerCase ''paid at woolworths metro'' \<and>
     toLowerCase ''Woolworths'' = toLowerCase ''woolworths''" by code_simp
  from matchesKeyword_whole_tokens
    [of "''Paid at WOOLWORTHS metro''" "''Woolworths''" "''paid at woolworths metro''" "''woolworths''"]
    m kt lo show ?thesis by simp
qed

text \<open>
  C7. A keyword of exactly three tokens matches a description exactly when the
  lower-cased description holds the three tokens in order, with one or more delimiters
  and nothing else between the first and the second and between the second and the third,
  the first token at the start of the text or behind a delimiter, the last one at the end
  of the text or before a delimiter. The keyword \<open>coles express fuel\<close> matches
  \<open>COLES EXPRESS - FUEL PURCHASE\<close> and does not match \<open>fuel coles express\<close>.
\<close>

theorem matchesKeyword_three_in_order:
  "(keyword_tokens k = [t0, t1, t2] \<longrightarrow>
      matchesKeyword d k =
        (\<exists>pre g1 g2 post. toLowerCase d = pre @ t0 @ g1 @ t1 @ g2 @ t2 @ post \<and>
           g1 \<noteq> [] \<and> list_all delim g1 \<and> g2 \<noteq> [] \<and> list_all delim g2 \<and>
           (pre = [] \<or> delim (last pre)) \<and> (post = [] \<or> delim (hd post)))) \<and>
   matchesKeyword ''COLES EXPRESS - FUEL PURCHASE'' ''coles express fuel'' \<and>
   \<not> matchesKeyword ''fuel coles express'' ''coles express fuel''"
proof (intro conjI impI)
  assume kt: "keyword_tokens k = [t0, t1, t2]"
  have lf: "toLowerCase t0 = t0" "toLowerCase t1 = t1" "toLowerCase t2 = t2"
    using token_lower_fixed [of _ k] kt by simp_all
  show "matchesKeyword d k =
        (\<exists>pre g1 g2 post. toLowerCase d = pre @ t0 @ g1 @ t1 @ g2 @ t2 @ post \<and>
           g1 \<noteq> [] \<and> list_all delim g1 \<and> g2 \<noteq> [] \<and> list_all delim g2 \<and>
           (pre = [] \<or> delim (last pre)) \<and> (post = [] \<or> delim (hd post)))"
    unfolding matchesKeyword_three [OF kt] three_occur [OF lf] ..
next
  show "matchesKeyword ''COLES EXPRESS - FUEL PURCHASE'' ''coles express fuel''" by code_simp
  show "\<not> matchesKeyword ''fuel coles express'' ''coles express fuel''" by code_simp
qed

text \<open>The theorem at the keyword \<open>coles express fuel\<close> and the description it matches.\<close>

theorem matchesKeyword_three_in_order_witness:
  "keyword_tokens ''coles express fuel'' = [''coles'', ''express'', ''fuel''] \<and>
   (\<exists>pre g1 g2 post.
      toLowerCase ''COLES EXPRESS - FUEL PURCHASE''
        = pre @ ''coles'' @ g1 @ ''express'' @ g2 @ ''fuel'' @ post \<and>
      g1 \<noteq> [] \<and> list_all delim g1 \<and> g2 \<noteq> [] \<and> list_all delim g2 \<and>
      (pre = [] \<or> delim (last pre)) \<and> (post = [] \<or> delim (hd post)))"
proof -
  have kt: "keyword_tokens ''coles express fuel'' = [''coles'', ''express'', ''fuel'']"
    by code_simp
  from matchesKeyword_three_in_order
    [of "''coles express fuel''" "''coles''" "''express''" "''fuel''" "''COLES EXPRESS - FUEL PURCHASE''"]
    kt show ?thesis by blast
qed

section \<open>Amounts\<close>

lemma toNumber_no_digit:
  assumes "\<not> list_ex is_digit s"
  shows "toNumber s = NaN \<or> toNumber s = Num 0"
proof (cases "s = []")
  case True
  then show ?thesis by (simp add: toNumber_def)
next
  case False
  define body where "body = (if startsWith s ''-'' then tl s else s)"
  have nd: "\<forall>c \<in> set body. \<not> is_digit c"
    using assms False unfolding body_def list_ex_iff by (cases s) auto
  then have ip: "takeWhile is_digit body = []" and rest: "dropWhile is_digit body = body"
    by (cases body; simp)+
  have "\<not> (list_all is_digit (tl body) \<and> tl body \<noteq> [])"
    using nd unfolding list_all_iff by (cases body; cases "tl body") auto
  then show ?thesis
    using False ip rest unfolding toNumber_def Let_def body_def [symmetric]
    by auto
qed

lemma orZero_number: "\<exists>q. orZero x = Num q"
  by (cases x) (simp_all add: orZero_def)

lemma strip_filter:
  "filter (\<lambda>c. c \<noteq> CHR '','') (filter kept_in_amount s)
     = filter (\<lambda>c. is_digit c \<or> c = CHR ''-'' \<or> c = CHR ''.'') s"
proof -
  have "\<not> is_digit CHR '',''" by (simp add: is_digit_def)
  then have "(kept_in_amount c \<and> c \<noteq> CHR '','') = (is_digit c \<or> c = CHR ''-'' \<or> c = CHR ''.'')"
    for c
    by (auto simp: kept_in_amount_def)
  then show ?thesis by simp
qed

text \<open>
  C9. \<open>parseAmount\<close> returns a number for every argument, never \<open>NaN\<close>. It returns 0
  for \<open>null\<close>, for the empty text, for \<open>abc\<close>, for \<open>1.2.3\<close> and for every text without a
  digit, and 1234.56 for \<open>$1,234.56\<close>. Its result is that of the text with everything
  but digits, minus signs and periods removed.
\<close>

theorem parseAmount_total:
  "(\<exists>q. parseAmount a = Num q) \<and>
   parseAmount None = Num 0 \<and>
   parseAmount (Some []) = Num 0 \<and>
   parseAmount (Some ''abc'') = Num 0 \<and>
   parseAmount (Some ''1.2.3'') = Num 0 \<and>
   (\<not> list_ex is_digit s \<longrightarrow> parseAmount (Some s) = Num 0) \<and>
   parseAmount (Some ''$1,234.56'') = Num (123456 / 100) \<and>
   parseAmount (Some s)
     = orZero (toNumber (filter (\<lambda>c. is_digit c \<or> c = CHR ''-'' \<or> c = CHR ''.'') s))"
proof (intro conjI impI)
  show "\<exists>q. parseAmount a = Num q"
    by (cases a) (simp_all add: parseAmount_def orZero_number)
  show "parseAmount None = Num 0" by (simp add: parseAmount_def)
  show "parseAmount (Some []) = Num 0" by code_simp
  show "parseAmount (Some ''abc'') = Num 0" by code_simp
  show "parseAmount (Some ''1.2.3'') = Num 0" by code_simp
  have "filter (\<lambda>c. c \<noteq> CHR '','') (filter kept_in_amount ''$1,234.56'') = ''1234.56''"
    by (simp add: kept_in_amount_def is_digit_def)
  moreover have "toNumber ''1234.56'' = Num (123456 / 100)"
    by (simp add: toNumber_def is_digit_def digits_val_def)
  ultimately show "parseAmount (Some ''$1,234.56'') = Num (123456 / 100)"
    unfolding parseAmount_def option.case by (simp add: orZero_def)
  show "parseAmount (Some s)
     = orZero (toNumber (filter (\<lambda>c. is_digit c \<or> c = CHR ''-'' \<or> c = CHR ''.'') s))"
    by (simp only: parseAmount_def option.case strip_filter)
  assume nd: "\<not> list_ex is_digit s"
  then have "\<not> list_ex is_digit (filter (\<lambda>c. c \<noteq> CHR '','') (filter kept_in_amount s))"
    by (auto simp: list_ex_iff)
  from toNumber_no_digit [OF this] show "parseAmount (Some s) = Num 0"
    by (auto simp: parseAmount_def orZero_def)
qed

text \<open>The theorem at a text without a digit, and at the text \<open>12-34\<close>.\<close>

theorem parseAmount_total_witness:
  "\<not> list_ex is_digit ''n/a -'' \<and> parseAmount (Some ''n/a -'') = Num 0 \<and>
   (\<exists>q. parseAmount (Some ''12-34'') = Num q)"
proof -
  have "\<not> list_ex is_digit ''n/a -''" by code_simp
  with parseAmount_total [of "Some ''12-34''" "''n/a -''"] show ?thesis by blast
qed

section \<open>The category of a transaction\<close>

lemma last_match_Cons:
  "last_match d (r # rs) =
     (case last_match d rs of
        Some c \<Rightarrow> Some c
      | None \<Rightarrow> if matchesKeyword d (keyword r) then Some (category r) else None)"
  by (auto simp: last_match_def split: list.splits)

lemma scan_rules_last:
  "scan_rules d m rules = (case last_match d rules of None \<Rightarrow> m | Some c \<Rightarrow> Some c)"
proof (induction rules arbitrary: m)
  case Nil
  then show ?case by (simp add: last_match_def)
next
  case (Cons r rs)
  then show ?case by (simp add: last_match_Cons split: option.splits)
qed

lemma last_match_lower: "last_match (toLowerCase d) rules = last_match d rules"
proof -
  have "matchesKeyword (toLowerCase d) k = matchesKeyword d k" for k
    by (rule matchesKeyword_case) (simp_all add: toLowerCase_idem)
  then show ?thesis by (simp add: last_match_def)
qed

text \<open>
  C4, as amended. \<open>categorise\<close> gives a transaction the category of the last rule of the
  list whose keyword matches its description, with two exceptions: when that category in
  upper case is \<open>PETROL\<close> and the absolute amount is at most 2 the transaction gets
  \<open>COFFEE\<close>, and when that category is the empty text it gets \<open>UNCATEGORISED\<close>. When no
  rule matches it gets \<open>UNCATEGORISED\<close>, so with the empty rule list every transaction
  does. The rules \<open>coffee shop => CAFE\<close>, \<open>shop => RETAIL\<close>, in this order, give the
  description \<open>coffee shop\<close> the category \<open>RETAIL\<close>.
\<close>

theorem categorise_last_match:
  "txn_category (categorise1 rules t) =
     Some (case last_match (description t) rules of
             None \<Rightarrow> ''UNCATEGORISED''
           | Some c \<Rightarrow>
               if c = [] then ''UNCATEGORISED''
               else if toUpperCase c = ''PETROL'' \<and> abs_amount t \<le> 2 then ''COFFEE''
               else c) \<and>
   categorise txns [] = map (\<lambda>t. t\<lparr>txn_category := Some ''UNCATEGORISED''\<rparr>) txns \<and>
   txn_category
     (categorise1 [\<lparr>keyword = ''coffee shop'', category = ''CAFE''\<rparr>,
                   \<lparr>keyword = ''shop'', category = ''RETAIL''\<rparr>]
        (t\<lparr>description := ''coffee shop''\<rparr>)) = Some ''RETAIL''"
proof (intro conjI)
  show g: "txn_category (categorise1 rules t) =
     Some (case last_match (description t) rules of
             None \<Rightarrow> ''UNCATEGORISED''
           | Some c \<Rightarrow>
               if c = [] then ''UNCATEGORISED''
               else if toUpperCase c = ''PETROL'' \<and> abs_amount t \<le> 2 then ''COFFEE''
               else c)" for rules t
    by (simp add: categorise1_def scan_rules_last last_match_lower truthy_def Let_def
        split: option.splits)
  show "categorise txns [] = map (\<lambda>t. t\<lparr>txn_category := Some ''UNCATEGORISED''\<rparr>) txns"
    by (simp add: categorise_def categorise1_def truthy_def)
  have lm: "last_match ''coffee shop'' [\<lparr>keyword = ''coffee shop'', category = ''CAFE''\<rparr>,
                   \<lparr>keyword = ''shop'', category = ''RETAIL''\<rparr>] = Some ''RETAIL''"
    by code_simp
  have up: "toUpperCase ''RETAIL'' \<noteq> ''PETROL''" by code_simp
  show "txn_category
     (categorise1 [\<lparr>keyword = ''coffee shop'', category = ''CAFE''\<rparr>,
                   \<lparr>keyword = ''shop'', category = ''RETAIL''\<rparr>]
        (t\<lparr>description := ''coffee shop''\<rparr>)) = Some ''RETAIL''"
    unfolding g using lm up by simp
qed

text \<open>The theorem at two rules that both match a description, the later one winning.\<close>

theorem categorise_last_match_witness:
  "txn_category
     (categorise1 [\<lparr>keyword = ''shell'', category = ''PETROL''\<rparr>,
                   \<lparr>keyword = ''coles'', category = ''GROCERIES''\<rparr>]
        \<lparr>date = ''2025-01-01'', description = ''SHELL COLES EXPRESS'', amount = Num 40,
          txn_category = None\<rparr>) = Some ''GROCERIES''"
proof -
  have "last_match ''SHELL COLES EXPRESS'' [\<lparr>keyword = ''shell'', category = ''PETROL''\<rparr>,
                   \<lparr>keyword = ''coles'', category = ''GROCERIES''\<rparr>] = Some ''GROCERIES''"
    by code_simp
  moreover have "toUpperCase ''GROCERIES'' \<noteq> ''PETROL''" by code_simp
  ultimately show ?thesis
    using categorise_last_match [of "[\<lparr>keyword = ''shell'', category = ''PETROL''\<rparr>,
                   \<lparr>keyword = ''coles'', category = ''GROCERIES''\<rparr>]"
        "\<lparr>date = ''2025-01-01'', description = ''SHELL COLES EXPRESS'', amount = Num 40,
          txn_category = None\<rparr>"]
    by simp
qed

text \<open>
  As first stated, without the two exceptions, C4 fails: the only rule that matches
  \<open>shell\<close> has the category \<open>PETROL\<close>, and a transaction of amount 1.50 gets \<open>COFFEE\<close>;
  a matching rule with the empty category leaves the transaction \<open>UNCATEGORISED\<close>.
\<close>

theorem categorise_last_match_counterexample:
  "last_match ''shell'' [\<lparr>keyword = ''shell'', category = ''PETROL''\<rparr>] = Some ''PETROL'' \<and>
   txn_category
     (categorise1 [\<lparr>keyword = ''shell'', category = ''PETROL''\<rparr>]
        \<lparr>date = ''2025-01-01'', description = ''shell'', amount = Num (3 / 2),
          txn_category = None\<rparr>) = Some ''COFFEE'' \<and>
   txn_category
     (categorise1 [\<lparr>keyword = ''shell'', category = ''PETROL''\<rparr>]
        \<lparr>date = ''2025-01-01'', description = ''shell'', amount = Num (3 / 2),
          txn_category = None\<rparr>) \<noteq> Some ''PETROL'' \<and>
   last_match ''shell'' [\<lparr>keyword = ''shell'', category = []\<rparr>] = Some [] \<and>
   txn_category
     (categorise1 [\<lparr>keyword = ''shell'', category = []\<rparr>]
        \<lparr>date = ''2025-01-01'', description = ''shell'', amount = Num 40,
          txn_category = None\<rparr>) = Some ''UNCATEGORISED''"
  by code_simp

text \<open>
  C5. After the scan there is one special case, and it reads the absolute value of the
  amount. \<open>categorise\<close> gives every transaction of the list the category of the last
  matching rule, \<open>COFFEE\<close> instead when that category in upper case is \<open>PETROL\<close> and
  the amount \<open>q\<close> has \<open>\<bar>q\<bar> \<le> 2\<close> (a \<open>NaN\<close> amount counts as 0), and \<open>UNCATEGORISED\<close>
  when no rule matches or the category is empty. When the scan ends with \<open>PETROL\<close> the
  amounts 1.50 and -1.50 give \<open>COFFEE\<close>, the amounts 15.00 and -15.00 keep \<open>PETROL\<close>.
  A category that is not empty and is not \<open>PETROL\<close> in upper case is assigned as it is.
\<close>

theorem categorise_fuel_special_case:
  "categorise txns rules =
     map (\<lambda>t. t\<lparr>txn_category := Some
            (case last_match (description t) rules of
               None \<Rightarrow> ''UNCATEGORISED''
             | Some c \<Rightarrow>
                 if c = [] then ''UNCATEGORISED''
                 else if toUpperCase c = ''PETROL'' \<and>
                         (case amount t of NaN \<Rightarrow> 0 | Num q \<Rightarrow> \<bar>q\<bar>) \<le> 2
                   then ''COFFEE''
                 else c)\<rparr>) txns \<and>
   (scan_rules (toLowerCase (description t)) None rules = Some ''PETROL'' \<and> amount t = Num q \<longrightarrow>
      txn_category (categorise1 rules t)
        = Some (if \<bar>q\<bar> \<le> 2 then ''COFFEE'' else ''PETROL'')) \<and>
   (scan_rules (toLowerCase (description t)) None rules = Some ''PETROL'' \<and>
    amount t = Num (150 / 100) \<longrightarrow> txn_category (categorise1 rules t) = Some ''COFFEE'') \<and>
   (scan_rules (toLowerCase (description t)) None rules = Some ''PETROL'' \<and>
    amount t = Num 15 \<longrightarrow> txn_category (categorise1 rules t) = Some ''PETROL'') \<and>
   (scan_rules (toLowerCase (description t)) None rules = Some ''PETROL'' \<and>
    amount t = Num (- (150 / 100)) \<longrightarrow> txn_category (categorise1 rules t) = Some ''COFFEE'') \<and>
   (scan_rules (toLowerCase (description t)) None rules = Some ''PETROL'' \<and>
    amount t = Num (- 15) \<longrightarrow> txn_category (categorise1 rules t) = Some ''PETROL'') \<and>
   (scan_rules (toLowerCase (description t)) None rules = Some ''PETROL'' \<and>
    amount t = NaN \<longrightarrow> txn_category (categorise1 rules t) = Some ''COFFEE'') \<and>
   (scan_rules (toLowerCase (description t)) None rules = Some c \<and> c \<noteq> [] \<and>
    toUpperCase c \<noteq> ''PETROL'' \<longrightarrow> txn_category (categorise1 rules t) = Some c) \<and>
   (scan_rules (toLowerCase (description t)) None rules = Some [] \<longrightarrow>
      txn_category (categorise1 rules t) = Some ''UNCATEGORISED'') \<and>
   (scan_rules (toLowerCase (description t)) None rules = None \<longrightarrow>
      txn_category (categorise1 rules t) = Some ''UNCATEGORISED'')"
proof -
  have up: "toUpperCase ''PETROL'' = ''PETROL''" by code_simp
  have one: "categorise1 rules t = t\<lparr>txn_category := Some
            (case last_match (description t) rules of
               None \<Rightarrow> ''UNCATEGORISED''
             | Some c \<Rightarrow>
                 if c = [] then ''UNCATEGORISED''
                 else if toUpperCase c = ''PETROL'' \<and>
                         (case amount t of NaN \<Rightarrow> 0 | Num q \<Rightarrow> \<bar>q\<bar>) \<le> 2
                   then ''COFFEE''
                 else c)\<rparr>" for t
    by (simp add: categorise1_def scan_rules_last last_match_lower truthy_def abs_amount_def
        Let_def split: option.splits)
  have all: "categorise txns rules =
     map (\<lambda>t. t\<lparr>txn_category := Some
            (case last_match (description t) rules of
               None \<Rightarrow> ''UNCATEGORISED''
             | Some c \<Rightarrow>
                 if c = [] then ''UNCATEGORISED''
                 else if toUpperCase c = ''PETROL'' \<and>
                         (case amount t of NaN \<Rightarrow> 0 | Num q \<Rightarrow> \<bar>q\<bar>) \<le> 2
                   then ''COFFEE''
                 else c)\<rparr>) txns"
    unfolding categorise_def using one by simp
  have rest: "(scan_rules (toLowerCase (description t)) None rules = Some ''PETROL'' \<and> amount t = Num q \<longrightarrow>
      txn_category (categorise1 rules t)
        = Some (if \<bar>q\<bar> \<le> 2 then ''COFFEE'' else ''PETROL'')) \<and>
   (scan_rules (toLowerCase (description t)) None rules = Some ''PETROL'' \<and>
    amount t = Num (150 / 100) \<longrightarrow> txn_category (categorise1 rules t) = Some ''COFFEE'') \<and>
   (scan_rules (toLowerCase (description t)) None rules = Some ''PETROL'' \<and>
    amount t = Num 15 \<longrightarrow> txn_category (categorise1 rules t) = Some ''PETROL'') \<and>
   (scan_rules (toLowerCase (description t)) None rules = Some ''PETROL'' \<and>
    amount t = Num (- (150 / 100)) \<longrightarrow> txn_category (categorise1 rules t) = Some ''COFFEE'') \<and>
   (scan_rules (toLowerCase (description t)) None rules = Some ''PETROL'' \<and>
    amount t = Num (- 15) \<longrightarrow> txn_category (categorise1 rules t) = Some ''PETROL'') \<and>
   (scan_rules (toLowerCase (description t)) None rules = Some ''PETROL'' \<and>
    amount t = NaN \<longrightarrow> txn_category (categorise1 rules t) = Some ''COFFEE'') \<and>
   (scan_rules (toLowerCase (description t)) None rules = Some c \<and> c \<noteq> [] \<and>
    toUpperCase c \<noteq> ''PETROL'' \<longrightarrow> txn_category (categorise1 rules t) = Some c) \<and>
   (scan_rules (toLowerCase (description t)) None rules = Some [] \<longrightarrow>
      txn_category (categorise1 rules t) = Some ''UNCATEGORISED'') \<and>
   (scan_rules (toLowerCase (description t)) None rules = None \<longrightarrow>
      txn_category (categorise1 rules t) = Some ''UNCATEGORISED'')"
    by (auto simp: categorise1_def truthy_def abs_amount_def Let_def up)
  from all rest show ?thesis by (rule conjI)
qed

text \<open>
  The theorem at the rule \<open>bp => PETROL\<close> and the amounts 1.50, 15, -1.50 and -15, and
  at a list of two debits of -15 and -2.
\<close>

theorem categorise_fuel_special_case_witness:
  "scan_rules (toLowerCase ''BP Connect 1234'') None [\<lparr>keyword = ''bp'', category = ''PETROL''\<rparr>]
     = Some ''PETROL'' \<and>
   txn_category (categorise1 [\<lparr>keyword = ''bp'', category = ''PETROL''\<rparr>]
     \<lparr>date = ''2025-01-01'', description = ''BP Connect 1234'', amount = Num (150 / 100),
       txn_category = None\<rparr>) = Some ''COFFEE'' \<and>
   txn_category (categorise1 [\<lparr>keyword = ''bp'', category = ''PETROL''\<rparr>]
     \<lparr>date = ''2025-01-01'', description = ''BP Connect 1234'', amount = Num 15,
       txn_category = None\<rparr>) = Some ''PETROL'' \<and>
   txn_category (categorise1 [\<lparr>keyword = ''bp'', category = ''PETROL''\<rparr>]
     \<lparr>date = ''2025-01-01'', description = ''BP Connect 1234'', amount = Num (- (150 / 100)),
       txn_category = None\<rparr>) = Some ''COFFEE'' \<and>
   txn_category (categorise1 [\<lparr>keyword = ''bp'', category = ''PETROL''\<rparr>]
     \<lparr>date = ''2025-01-01'', description = ''BP Connect 1234'', amount = Num (- 15),
       txn_category = None\<rparr>) = Some ''PETROL'' \<and>
   categorise
     [\<lparr>date = ''2025-01-01'', description = ''BP Connect 1234'', amount = Num (- 15),
        txn_category = None\<rparr>,
      \<lparr>date = ''2025-01-02'', description = ''BP Connect 1234'', amount = Num (- 2),
        txn_category = None\<rparr>]
     [\<lparr>keyword = ''bp'', category = ''PETROL''\<rparr>]
   = [\<lparr>date = ''2025-01-01'', description = ''BP Connect 1234'', amount = Num (- 15),
        txn_category = Some ''PETROL''\<rparr>,
      \<lparr>date = ''2025-01-02'', description = ''BP Connect 1234'', amount = Num (- 2),
        txn_category = Some ''COFFEE''\<rparr>]"
proof -
  define rs where "rs = [\<lparr>keyword = ''bp'', category = ''PETROL''\<rparr>]"
  define mk where "mk = (\<lambda>d x. \<lparr>date = d, description = ''BP Connect 1234'', amount = Num x,
       txn_category = None\<rparr>)"
  have s: "scan_rules (toLowerCase ''BP Connect 1234'') None rs = Some ''PETROL''"
    unfolding rs_def by code_simp
  have lm: "last_match ''BP Connect 1234'' rs = Some ''PETROL''"
    unfolding rs_def by code_simp
  have up: "toUpperCase ''PETROL'' = ''PETROL''" by code_simp
  have d: "description (mk d x) = ''BP Connect 1234''" "amount (mk d x) = Num x" for d x
    by (simp_all add: mk_def)
  have g: "txn_category (categorise1 rs (mk dd x))
      = Some (if \<bar>x\<bar> \<le> 2 then ''COFFEE'' else ''PETROL'')" for dd x
  proof -
    have "scan_rules (toLowerCase (description (mk dd x))) None rs = Some ''PETROL'' \<and>
        amount (mk dd x) = Num x"
      unfolding d using s by simp
    with categorise_fuel_special_case [of "[]" rs "mk dd x" x] show ?thesis by blast
  qed
  have a: "txn_category (categorise1 rs (mk ''2025-01-01'' (150 / 100))) = Some ''COFFEE''"
    unfolding g by simp
  have b: "txn_category (categorise1 rs (mk ''2025-01-01'' 15)) = Some ''PETROL''"
    unfolding g by simp
  have c: "txn_category (categorise1 rs (mk ''2025-01-01'' (- (150 / 100)))) = Some ''COFFEE''"
    unfolding g by simp
  have e: "txn_category (categorise1 rs (mk ''2025-01-01'' (- 15))) = Some ''PETROL''"
    unfolding g by simp
  have f: "categorise [mk ''2025-01-01'' (- 15), mk ''2025-01-02'' (- 2)] rs
      = [(mk ''2025-01-01'' (- 15))\<lparr>txn_category := Some ''PETROL''\<rparr>,
         (mk ''2025-01-02'' (- 2))\<lparr>txn_category := Some ''COFFEE''\<rparr>]"
    using conjunct1 [OF categorise_fuel_special_case [of "[mk ''2025-01-01'' (- 15), mk ''2025-01-02'' (- 2)]" rs]]
    by (simp add: d lm up)
  from s a b c e f show ?thesis
    unfolding rs_def mk_def by simp
qed

section \<open>Lines of a statement\<close>

lemma acc_bol:
  assumes "\<And>b s. rx_run r (b, s) \<noteq> [] \<longleftrightarrow> Q s"
  shows "rx_test (Seq Bol r) s \<longleftrightarrow> Q s"
proof
  assume "rx_test (Seq Bol r) s"
  then obtain pre rest x where s: "s = pre @ rest"
      and x: "x \<in> set (rx_run (Seq Bol r) (pre = [], rest))"
    unfolding rx_test_iff by blast
  from x obtain mid where mid: "mid \<in> set (rx_run Bol (pre = [], rest))" "x \<in> set (rx_run r mid)"
    unfolding seq_iff by blast
  obtain b' s' where bs: "mid = (b', s')" by (cases mid)
  from mid(1) bs have "pre = []" "s' = rest" unfolding bol_iff by simp_all
  moreover from mid(2) bs have "Q s'" using assms nonempty_iff by blast
  ultimately show "Q s" using s by simp
next
  assume "Q s"
  then have "rx_run r (True, s) \<noteq> []" by (simp add: assms)
  then obtain x where "x \<in> set (rx_run r (True, s))" unfolding nonempty_iff by blast
  moreover have "(True, s) \<in> set (rx_run Bol (([]::string) = [], s))" by simp
  ultimately have "x \<in> set (rx_run (Seq Bol r) (([]::string) = [], s))"
    unfolding seq_iff by blast
  moreover have "s = [] @ s" by simp
  ultimately show "rx_test (Seq Bol r) s" unfolding rx_test_iff by blast
qed

lemma lit_iff:
  "(b', s') \<in> set (rx_run (Lit t) (b, s)) \<longleftrightarrow> s = t @ s' \<and> b' = (b \<and> t = [])"
proof
  assume "(b', s') \<in> set (rx_run (Lit t) (b, s))"
  then have "take (length t) s = t" "s' = drop (length t) s" "b' = (b \<and> t = [])"
    by (auto split: if_splits)
  then show "s = t @ s' \<and> b' = (b \<and> t = [])"
    by (metis append_take_drop_id)
next
  assume "s = t @ s' \<and> b' = (b \<and> t = [])"
  then show "(b', s') \<in> set (rx_run (Lit t) (b, s))" by simp
qed

lemma acc_lit:
  assumes "\<And>b s. rx_run r (b, s) \<noteq> [] \<longleftrightarrow> Q s"
  shows "rx_run (Seq (Lit t) r) (b, s) \<noteq> [] \<longleftrightarrow> (\<exists>rest. s = t @ rest \<and> Q rest)"
proof
  assume "rx_run (Seq (Lit t) r) (b, s) \<noteq> []"
  then obtain mid where mid: "mid \<in> set (rx_run (Lit t) (b, s))" "rx_run r mid \<noteq> []"
    unfolding acc_seq by blast
  obtain b' s' where bs: "mid = (b', s')" by (cases mid)
  from mid bs have "s = t @ s'" "Q s'" using assms lit_iff by blast+
  then show "\<exists>rest. s = t @ rest \<and> Q rest" by blast
next
  assume "\<exists>rest. s = t @ rest \<and> Q rest"
  then obtain rest where r: "s = t @ rest" "Q rest" by blast
  then have "(b \<and> t = [], rest) \<in> set (rx_run (Lit t) (b, s))" unfolding lit_iff by blast
  moreover have "rx_run r (b \<and> t = [], rest) \<noteq> []" using r(2) by (simp add: assms)
  ultimately show "rx_run (Seq (Lit t) r) (b, s) \<noteq> []" unfolding acc_seq by blast
qed

lemmas date_shape =
  acc_bol [OF acc_many [OF acc_many [OF acc_many [OF acc_many [OF acc_many [OF acc_eol]]]]]]

lemmas amount_shape =
  acc_bol [OF acc_many [OF acc_many [OF acc_many [OF acc_lit [OF acc_many [OF acc_eol]]]]]]

lemma date_line_iff:
  "rx_test date_re s \<longleftrightarrow>
     (\<exists>dd w1 mm w2 yy. s = dd @ w1 @ mm @ w2 @ yy \<and>
        list_all is_digit dd \<and> (length dd = 1 \<or> length dd = 2) \<and>
        w1 \<noteq> [] \<and> list_all is_ws w1 \<and> list_all is_alpha mm \<and> length mm = 3 \<and>
        w2 \<noteq> [] \<and> list_all is_ws w2 \<and> list_all is_digit yy \<and> length yy = 4)"
proof -
  have b1: "in_bounds 1 (Some 2) (length g) \<longleftrightarrow> length g = 1 \<or> length g = 2" for g :: string
    by (auto simp: in_bounds_def)
  have b2: "in_bounds 1 None (length g) \<longleftrightarrow> g \<noteq> []" for g :: string
    by (cases g) (simp_all add: in_bounds_def)
  have b3: "in_bounds n (Some n) (length g) \<longleftrightarrow> length g = n" for g :: string and n
    by (auto simp: in_bounds_def)
  show ?thesis
    unfolding date_re_def seqs.simps Plus_def Exactly_def date_shape b1 b2 b3
  proof (rule iffI; elim exE conjE)
    fix g1 r1 g2 r2 g3 r3 g4 r4 g5 r5
    assume "s = g1 @ r1" "r1 = g2 @ r2" "r2 = g3 @ r3" "r3 = g4 @ r4" "r4 = g5 @ r5" "r5 = []"
    then have "s = g1 @ g2 @ g3 @ g4 @ g5" by simp
    moreover assume "list_all is_digit g1" "length g1 = 1 \<or> length g1 = 2" "g2 \<noteq> []"
      "list_all is_ws g2" "list_all is_alpha g3" "length g3 = 3" "g4 \<noteq> []" "list_all is_ws g4"
      "list_all is_digit g5" "length g5 = 4"
    ultimately show "\<exists>dd w1 mm w2 yy. s = dd @ w1 @ mm @ w2 @ yy \<and>
        list_all is_digit dd \<and> (length dd = 1 \<or> length dd = 2) \<and>
        w1 \<noteq> [] \<and> list_all is_ws w1 \<and> list_all is_alpha mm \<and> length mm = 3 \<and>
        w2 \<noteq> [] \<and> list_all is_ws w2 \<and> list_all is_digit yy \<and> length yy = 4"
      by (intro exI conjI)
  next
    fix dd w1 mm w2 yy
    assume "s = dd @ w1 @ mm @ w2 @ yy"
    then have "s = dd @ w1 @ mm @ w2 @ yy @ []" by simp
    moreover assume "list_all is_digit dd" "length dd = 1 \<or> length dd = 2" "w1 \<noteq> []"
      "list_all is_ws w1" "list_all is_alpha mm" "length mm = 3" "w2 \<noteq> []" "list_all is_ws w2"
      "list_all is_digit yy" "length yy = 4"
    ultimately show "\<exists>g rest. s = g @ rest \<and> list_all is_digit g \<and>
      (length g = 1 \<or> length g = 2) \<and>
      (\<exists>ga resta. rest = ga @ resta \<and> list_all is_ws ga \<and> ga \<noteq> [] \<and>
      (\<exists>g rest. resta = g @ rest \<and> list_all is_alpha g \<and> length g = 3 \<and>
      (\<exists>ga resta. rest = ga @ resta \<and> list_all is_ws ga \<and> ga \<noteq> [] \<and>
      (\<exists>g rest. resta = g @ rest \<and> list_all is_digit g \<and> length g = 4 \<and> rest = []))))"
      by (intro exI conjI) (rule refl | assumption)+
  qed
qed

lemma amount_line_iff:
  "rx_test amount_re s \<longleftrightarrow>
     (\<exists>sg dl ip fp. s = sg @ dl @ ip @ ''.'' @ fp \<and>
        (sg = [] \<or> sg = ''-'') \<and> (dl = [] \<or> dl = ''$'') \<and>
        ip \<noteq> [] \<and> list_all is_digit ip \<and> list_all is_digit fp \<and> length fp = 2)"
proof -
  have b0: "list_all (\<lambda>c. c = x) g \<and> in_bounds 0 (Some 1) (length g) \<longleftrightarrow> g = [] \<or> g = [x]"
    for g :: string and x
    by (cases g; cases "tl g") (auto simp: in_bounds_def)
  have b2: "in_bounds 1 None (length g) \<longleftrightarrow> g \<noteq> []" for g :: string
    by (cases g) (simp_all add: in_bounds_def)
  have b3: "in_bounds n (Some n) (length g) \<longleftrightarrow> length g = n" for g :: string and n
    by (auto simp: in_bounds_def)
  have sh: "rx_test amount_re s \<longleftrightarrow>
    (\<exists>g rest. s = g @ rest \<and> (list_all (\<lambda>c. c = CHR ''-'') g \<and> in_bounds 0 (Some 1) (length g)) \<and>
     (\<exists>ga resta. rest = ga @ resta \<and>
        (list_all (\<lambda>c. c = CHR ''$'') ga \<and> in_bounds 0 (Some 1) (length ga)) \<and>
     (\<exists>g rest. resta = g @ rest \<and> list_all is_digit g \<and> in_bounds 1 None (length g) \<and>
     (\<exists>resta. rest = ''.'' @ resta \<and>
     (\<exists>g rest. resta = g @ rest \<and> list_all is_digit g \<and> in_bounds 2 (Some 2) (length g) \<and>
        rest = [])))))"
    unfolding amount_re_def seqs.simps Plus_def Exactly_def Opt_def amount_shape
    by (simp only: conj_assoc)
  show ?thesis
    unfolding sh b0 b2 b3
  proof (rule iffI; elim exE conjE)
    fix g1 r1 g2 r2 g3 r3 r4 g5 r5
    assume "s = g1 @ r1" "r1 = g2 @ r2" "r2 = g3 @ r3" "r3 = ''.'' @ r4" "r4 = g5 @ r5" "r5 = []"
    then have "s = g1 @ g2 @ g3 @ ''.'' @ g5" by simp
    moreover assume "g1 = [] \<or> g1 = ''-''" "g2 = [] \<or> g2 = ''$''" "g3 \<noteq> []"
      "list_all is_digit g3" "list_all is_digit g5" "length g5 = 2"
    ultimately show "\<exists>sg dl ip fp. s = sg @ dl @ ip @ ''.'' @ fp \<and>
        (sg = [] \<or> sg = ''-'') \<and> (dl = [] \<or> dl = ''$'') \<and>
        ip \<noteq> [] \<and> list_all is_digit ip \<and> list_all is_digit fp \<and> length fp = 2"
      by (intro exI conjI)
  next
    fix sg dl ip fp
    assume "s = sg @ dl @ ip @ ''.'' @ fp"
    then have "s = sg @ dl @ ip @ ''.'' @ fp @ []" by simp
    moreover assume "sg = [] \<or> sg = ''-''" "dl = [] \<or> dl = ''$''" "ip \<noteq> []"
      "list_all is_digit ip" "list_all is_digit fp" "length fp = 2"
    ultimately show "\<exists>g rest. s = g @ rest \<and> (g = [] \<or> g = ''-'') \<and>
     (\<exists>ga resta. rest = ga @ resta \<and> (ga = [] \<or> ga = ''$'') \<and>
     (\<exists>g rest. resta = g @ rest \<and> list_all is_digit g \<and> g \<noteq> [] \<and>
     (\<exists>resta. rest = ''.'' @ resta \<and>
     (\<exists>g rest. resta = g @ rest \<and> list_all is_digit g \<and> length g = 2 \<and> rest = []))))"
      by (intro exI conjI) (rule refl | assumption)+
  qed
qed

lemma digit_not_ws: "is_digit c \<Longrightarrow> \<not> is_ws c"
  by (auto simp: is_digit_def is_ws_def)

lemma alpha_not_ws: "is_alpha c \<Longrightarrow> \<not> is_ws c"
  by (auto simp: is_alpha_def is_upper_def is_lower_def is_ws_def)

lemma amount_line_no_ws:
  assumes "rx_test amount_re s"
  shows "\<forall>c \<in> set s. \<not> is_ws c"
proof -
  from assms obtain sg dl ip fp where p: "s = sg @ dl @ ip @ ''.'' @ fp"
      "sg = [] \<or> sg = ''-''" "dl = [] \<or> dl = ''$''" "list_all is_digit ip" "list_all is_digit fp"
    unfolding amount_line_iff by blast
  have "\<forall>c \<in> set sg. \<not> is_ws c" "\<forall>c \<in> set dl. \<not> is_ws c"
    using p(2,3) by (auto simp: is_ws_def)
  moreover have "\<forall>c \<in> set ip. \<not> is_ws c" "\<forall>c \<in> set fp. \<not> is_ws c"
    using p(4,5) digit_not_ws unfolding list_all_iff by blast+
  moreover have "\<not> is_ws CHR ''.''" by (simp add: is_ws_def)
  ultimately show ?thesis unfolding p(1) by auto
qed

lemma date_line_has_ws:
  assumes "rx_test date_re s"
  shows "\<exists>c \<in> set s. is_ws c"
proof -
  from assms obtain dd w1 mm w2 yy where p: "s = dd @ w1 @ mm @ w2 @ yy" "w1 \<noteq> []"
      "list_all is_ws w1"
    unfolding date_line_iff by blast
  then have "hd w1 \<in> set s" "is_ws (hd w1)" by (cases w1; simp)+
  then show ?thesis by blast
qed

lemma amount_line_not_date: "rx_test amount_re s \<Longrightarrow> \<not> rx_test date_re s"
  using amount_line_no_ws date_line_has_ws by blast

lemma normalisePdfDate_truthy: "truthy (Some (normalisePdfDate l))"
  by (simp add: truthy_def normalisePdfDate_def Let_def)

lemma scan_lines_description:
  assumes "truthy cur" "list_all (\<lambda>l. \<not> rx_test date_re l \<and> \<not> rx_test amount_re l) ds"
  shows "scan_lines cur acc (ds @ rest)
     = scan_lines cur (acc @ filter (\<lambda>l. \<not> rx_test header_re l) ds) rest"
  using assms(2)
proof (induction ds arbitrary: acc)
  case Nil
  then show ?case by simp
next
  case (Cons l ds)
  then show ?case using assms(1) by simp
qed

lemma scan_lines_record:
  assumes "rx_test date_re dl"
    and "list_all (\<lambda>l. \<not> rx_test date_re l \<and> \<not> rx_test amount_re l) ds"
    and "rx_test amount_re al"
  shows "scan_lines cur acc (dl # ds @ al # rest) =
     (let descr = trim (join '' '' (filter (\<lambda>l. \<not> rx_test header_re l) ds))
      in if rx_test payment_re descr then scan_lines None [] rest
         else \<lparr>date = normalisePdfDate dl, description = descr,
                amount = js_abs (parseAmount (Some al)), txn_category = None\<rparr>
              # scan_lines None [] rest)"
proof -
  have "scan_lines cur acc (dl # ds @ al # rest)
      = scan_lines (Some (normalisePdfDate dl)) [] (ds @ al # rest)"
    using assms(1) by simp
  also have "\<dots> = scan_lines (Some (normalisePdfDate dl))
      (filter (\<lambda>l. \<not> rx_test header_re l) ds) (al # rest)"
    using scan_lines_description [OF normalisePdfDate_truthy assms(2), of dl "[]" "al # rest"]
    by simp
  finally show ?thesis
    using assms(3) amount_line_not_date [OF assms(3)] normalisePdfDate_truthy [of dl]
    by (simp add: Let_def)
qed

lemma split_space_piece:
  "CHR '' '' \<notin> set a \<Longrightarrow> split_space (a @ CHR '' '' # rest) = a # split_space rest"
  by (induction a) auto

lemma split_space_last: "CHR '' '' \<notin> set a \<Longrightarrow> split_space a = [a]"
  by (induction a) auto

lemma digits_no_space: "list_all is_digit s \<Longrightarrow> CHR '' '' \<notin> set s"
  by (auto simp: list_all_iff is_digit_def)

lemma alphas_no_space: "list_all is_alpha s \<Longrightarrow> CHR '' '' \<notin> set s"
  by (auto simp: list_all_iff is_alpha_def is_upper_def is_lower_def)

lemma normalisePdfDate_shape:
  assumes "list_all is_digit dd" "list_all is_alpha w" "list_all is_digit yy"
  shows "normalisePdfDate (dd @ '' '' @ w @ '' '' @ yy)
     = yy @ ''-'' @ shown (map_of months w) @ ''-'' @ padStart2 dd"
proof -
  have "split_space (dd @ '' '' @ w @ '' '' @ yy) = [dd, w, yy]"
    using assms
    by (simp add: split_space_piece split_space_last digits_no_space alphas_no_space)
  then show ?thesis
    by (simp add: normalisePdfDate_def shown_def Let_def numeral_2_eq_2)
qed

lemma date_line_shape:
  assumes "list_all is_digit dd" "length dd = 1 \<or> length dd = 2" "list_all is_alpha w"
    "length w = 3" "list_all is_digit yy" "length yy = 4"
  shows "rx_test date_re (dd @ '' '' @ w @ '' '' @ yy)"
proof -
  have "list_all is_ws '' ''" by (simp add: is_ws_def)
  with assms show ?thesis
    unfolding date_line_iff
    by (intro exI[of _ dd] exI[of _ "'' ''"] exI[of _ w] exI[of _ yy]) simp
qed

text \<open>
  C8. The lines \<open>1 Jan 2025\<close>, \<open>COLES\<close>, \<open>12.34\<close> yield the one transaction of
  2025-01-01, \<open>COLES\<close>, 12.34, and the lines \<open>1 Jan 2025\<close>, \<open>PAYMENT-BPAY THANK YOU\<close>,
  \<open>50.00\<close> yield none, from the list of lines and from the text they are split from.
  In general a date line, description lines and an amount line yield no transaction when
  the joined description matches the payment pattern, whatever was pending before.
\<close>

theorem scan_lines_examples:
  "scan_lines None [] [''1 Jan 2025'', ''COLES'', ''12.34''] =
     [\<lparr>date = ''2025-01-01'', description = ''COLES'', amount = Num (1234 / 100),
       txn_category = None\<rparr>] \<and>
   scan_lines None [] [''1 Jan 2025'', ''PAYMENT-BPAY THANK YOU'', ''50.00''] = [] \<and>
   parseWestpacPdfText (''1 Jan 2025'' @ [CHR 0x0A] @ ''COLES'' @ [CHR 0x0A] @ ''12.34'' @ [CHR 0x0A]) =
     [\<lparr>date = ''2025-01-01'', description = ''COLES'', amount = Num (1234 / 100),
       txn_category = None\<rparr>] \<and>
   parseWestpacPdfText
     (''1 Jan 2025'' @ [CHR 0x0A] @ ''PAYMENT-BPAY THANK YOU'' @ [CHR 0x0A] @ ''50.00'' @ [CHR 0x0A]) = [] \<and>
   (rx_test date_re dl \<and>
    list_all (\<lambda>l. \<not> rx_test date_re l \<and> \<not> rx_test amount_re l) ds \<and>
    rx_test amount_re al \<and>
    rx_test payment_re (trim (join '' '' (filter (\<lambda>l. \<not> rx_test header_re l) ds))) \<longrightarrow>
      scan_lines cur acc (dl # ds @ al # rest) = scan_lines None [] rest)"
proof (intro conjI impI; (elim conjE)?)
  show "scan_lines None [] [''1 Jan 2025'', ''COLES'', ''12.34''] =
     [\<lparr>date = ''2025-01-01'', description = ''COLES'', amount = Num (1234 / 100),
       txn_category = None\<rparr>]"
    by code_simp
  show "scan_lines None [] [''1 Jan 2025'', ''PAYMENT-BPAY THANK YOU'', ''50.00''] = []"
    by code_simp
  show "parseWestpacPdfText (''1 Jan 2025'' @ [CHR 0x0A] @ ''COLES'' @ [CHR 0x0A] @ ''12.34'' @ [CHR 0x0A]) =
     [\<lparr>date = ''2025-01-01'', description = ''COLES'', amount = Num (1234 / 100),
       txn_category = None\<rparr>]"
    by code_simp
  show "parseWestpacPdfText
     (''1 Jan 2025'' @ [CHR 0x0A] @ ''PAYMENT-BPAY THANK YOU'' @ [CHR 0x0A] @ ''50.00'' @ [CHR 0x0A]) = []"
    by code_simp
next
  assume h: "rx_test date_re dl"
    "list_all (\<lambda>l. \<not> rx_test date_re l \<and> \<not> rx_test amount_re l) ds"
    "rx_test amount_re al"
    "rx_test payment_re (trim (join '' '' (filter (\<lambda>l. \<not> rx_test header_re l) ds)))"
  show "scan_lines cur acc (dl # ds @ al # rest) = scan_lines None [] rest"
    unfolding scan_lines_record [OF h(1,2,3)] Let_def using h(4) by (rule if_P)
qed

text \<open>The theorem at a record of three description lines, one of them a table header.\<close>

theorem scan_lines_examples_witness:
  "rx_test date_re ''12 Mar 2025'' \<and> rx_test amount_re ''-$50.00'' \<and>
   rx_test payment_re (trim (join '' '' [''payment bpay'', ''ref 123''])) \<and>
   scan_lines None [] [''12 Mar 2025'', ''payment bpay'', ''Description'', ''ref 123'', ''-$50.00''] = []"
proof -
  have h: "rx_test date_re ''12 Mar 2025'' \<and>
      list_all (\<lambda>l. \<not> rx_test date_re l \<and> \<not> rx_test amount_re l)
        [''payment bpay'', ''Description'', ''ref 123''] \<and>
      rx_test amount_re ''-$50.00'' \<and>
      filter (\<lambda>l. \<not> rx_test header_re l) [''payment bpay'', ''Description'', ''ref 123'']
        = [''payment bpay'', ''ref 123''] \<and>
      rx_test payment_re (trim (join '' '' [''payment bpay'', ''ref 123'']))"
    by code_simp
  from scan_lines_examples [of "''12 Mar 2025''" "[''payment bpay'', ''Description'', ''ref 123'']"
      "''-$50.00''" None "[]" "[]"] h
  show ?thesis by simp
qed

text \<open>
  C10. One or two digits, a space, any three letters, a space and four digits make a
  date line, whether or not the three letters are a month of the table. When they are
  not, the date is the year, the word \<open>undefined\<close> and the padded day, and the record
  that the line opens is emitted with that date: the lines \<open>1 Foo 2025\<close>, \<open>COLES\<close>,
  \<open>12.34\<close> yield a transaction dated \<open>2025-undefined-01\<close>.
\<close>

theorem date_marker_any_word:
  "(list_all is_digit dd \<and> (length dd = 1 \<or> length dd = 2) \<and> list_all is_alpha w \<and>
    length w = 3 \<and> list_all is_digit yy \<and> length yy = 4 \<longrightarrow>
      rx_test date_re (dd @ '' '' @ w @ '' '' @ yy)) \<and>
   (list_all is_digit dd \<and> (length dd = 1 \<or> length dd = 2) \<and> list_all is_alpha w \<and>
    length w = 3 \<and> list_all is_digit yy \<and> length yy = 4 \<and> map_of months w = None \<longrightarrow>
      normalisePdfDate (dd @ '' '' @ w @ '' '' @ yy) = yy @ ''-undefined-'' @ padStart2 dd \<and>
      (list_all (\<lambda>l. \<not> rx_test date_re l \<and> \<not> rx_test amount_re l) ds \<and>
       rx_test amount_re al \<and>
       \<not> rx_test payment_re (trim (join '' '' (filter (\<lambda>l. \<not> rx_test header_re l) ds))) \<longrightarrow>
         scan_lines cur acc ((dd @ '' '' @ w @ '' '' @ yy) # ds @ al # rest) =
           \<lparr>date = yy @ ''-undefined-'' @ padStart2 dd,
             description = trim (join '' '' (filter (\<lambda>l. \<not> rx_test header_re l) ds)),
             amount = js_abs (parseAmount (Some al)), txn_category = None\<rparr>
           # scan_lines None [] rest)) \<and>
   scan_lines None [] [''1 Foo 2025'', ''COLES'', ''12.34''] =
     [\<lparr>date = ''2025-undefined-01'', description = ''COLES'', amount = Num (1234 / 100),
       txn_category = None\<rparr>]"
proof (intro conjI impI; (elim conjE)?)
  show "scan_lines None [] [''1 Foo 2025'', ''COLES'', ''12.34''] =
     [\<lparr>date = ''2025-undefined-01'', description = ''COLES'', amount = Num (1234 / 100),
       txn_category = None\<rparr>]"
    by code_simp
next
  assume "list_all is_digit dd" "length dd = 1 \<or> length dd = 2" "list_all is_alpha w"
    "length w = 3" "list_all is_digit yy" "length yy = 4"
  then show "rx_test date_re (dd @ '' '' @ w @ '' '' @ yy)"
    by (intro date_line_shape)
next
  assume a: "list_all is_digit dd" "length dd = 1 \<or> length dd = 2" "list_all is_alpha w"
    "length w = 3" "list_all is_digit yy" "length yy = 4" "map_of months w = None"
  have d: "rx_test date_re (dd @ '' '' @ w @ '' '' @ yy)"
    using a by (intro date_line_shape)
  show n: "normalisePdfDate (dd @ '' '' @ w @ '' '' @ yy) = yy @ ''-undefined-'' @ padStart2 dd"
    using normalisePdfDate_shape [OF a(1) a(3) a(5)] a(7) by (simp add: shown_def)
  assume b: "list_all (\<lambda>l. \<not> rx_test date_re l \<and> \<not> rx_test amount_re l) ds"
    "rx_test amount_re al"
    "\<not> rx_test payment_re (trim (join '' '' (filter (\<lambda>l. \<not> rx_test header_re l) ds)))"
  show "scan_lines cur acc ((dd @ '' '' @ w @ '' '' @ yy) # ds @ al # rest) =
           \<lparr>date = yy @ ''-undefined-'' @ padStart2 dd,
             description = trim (join '' '' (filter (\<lambda>l. \<not> rx_test header_re l) ds)),
             amount = js_abs (parseAmount (Some al)), txn_category = None\<rparr>
           # scan_lines None [] rest"
    unfolding scan_lines_record [OF d b(1,2)] n Let_def using b(3) by (rule if_not_P)
qed

text \<open>The theorem at the line \<open>1 Foo 2025\<close>.\<close>

theorem date_marker_any_word_witness:
  "rx_test date_re ''1 Foo 2025'' \<and> normalisePdfDate ''1 Foo 2025'' = ''2025-undefined-01'' \<and>
   map_of months ''Foo'' = None"
proof -
  have h: "list_all is_digit ''1'' \<and> (length ''1'' = 1 \<or> length ''1'' = 2) \<and>
      list_all is_alpha ''Foo'' \<and> length ''Foo'' = 3 \<and> list_all is_digit ''2025'' \<and>
      length ''2025'' = 4 \<and> map_of months ''Foo'' = None"
    by code_simp
  have p: "padStart2 ''1'' = ''01''" by code_simp
  from date_marker_any_word [of "''1''" "''Foo''" "''2025''"] h p show ?thesis
    by simp
qed

end
